theory Spec2Isabelle
  imports Main "HOL-Library.Word" "HOL-Library.List_Lexorder"
begin

unbundle bit_operations_syntax

section \<open>The program: bitmask dynamic programming for Hamiltonian paths\<close>

text \<open>
  The source is \<^verbatim>\<open>src/main.py\<close>: \<^verbatim>\<open>find_hamiltonian_path(adj)\<close> and the entry point
  \<^verbatim>\<open>run(input_data, solver_params, extra_arguments)\<close>.

  Python integers are unbounded. Vertex numbers and masks produced by \<^verbatim>\<open>range\<close> are
  natural numbers; the entries of the adjacency matrix, the entries of the parent table
  (which holds the sentinel \<^verbatim>\<open>-1\<close>) and the variable \<^verbatim>\<open>cur_v\<close> are integers.
  An entry of the adjacency matrix is an edge when it is truthy, that is, nonzero.
\<close>

datatype error = IndexError | KeyError | ValueError

text \<open>Python's list indexing \<^verbatim>\<open>xs[i]\<close>: a negative index counts from the end, an index out
  of range raises \<^verbatim>\<open>IndexError\<close>.\<close>

definition get :: "'a list \<Rightarrow> int \<Rightarrow> error + 'a" where
  "get xs i =
     (let len = int (length xs); j = (if i < 0 then len + i else i)
      in if 0 \<le> j \<and> j < len then Inr (xs ! nat j) else Inl IndexError)"

text \<open>The objects of one call: the caller's matrix \<^verbatim>\<open>adj\<close> and the two local tables.\<close>

record state =
  adj :: "int list list"
  dp :: "bool list list"
  parent :: "int list list"

text \<open>The response dictionary of \<^verbatim>\<open>run\<close>, with its two keys.\<close>

record response =
  optimal_solution :: "int list"
  existence :: int

text \<open>Lines 19 to 25: \<^verbatim>\<open>dp = [[False] * n for _ in range(1 << n)]\<close> and
  \<^verbatim>\<open>parent = [[-1] * n for _ in range(1 << n)]\<close>. The comprehension builds a new row
  object for every mask, so no two rows are aliased and a list of lists models the tables.\<close>

definition init_state :: "int list list \<Rightarrow> state" where
  "init_state a =
     (let n = length a in
      \<lparr>adj = a,
       dp = replicate (push_bit n 1) (replicate n False),
       parent = replicate (push_bit n 1) (replicate n (- 1))\<rparr>)"

text \<open>A \<^verbatim>\<open>for\<close> loop whose body may raise: the first exception ends the loop.\<close>

fun for_loop :: "('a \<Rightarrow> 's \<Rightarrow> error + 's) \<Rightarrow> 'a list \<Rightarrow> 's \<Rightarrow> error + 's" where
  "for_loop body [] s = Inr s"
| "for_loop body (x # xs) s =
     (case body x s of Inl e \<Rightarrow> Inl e | Inr s' \<Rightarrow> for_loop body xs s')"

text \<open>Lines 28 to 30, the body of the base-case loop. The row index \<^verbatim>\<open>1 << v\<close> is
  below \<^verbatim>\<open>1 << n\<close> and the column \<^verbatim>\<open>v\<close> below \<^verbatim>\<open>n\<close> for every \<^verbatim>\<open>v\<close> in
  \<^verbatim>\<open>range(n)\<close>, so these writes never raise.\<close>

definition base_case :: "nat \<Rightarrow> state \<Rightarrow> error + state" where
  "base_case v s =
     Inr (s\<lparr>dp := (dp s)[push_bit v 1 := (dp s ! push_bit v 1)[v := True]],
            parent := (parent s)[push_bit v 1 := (parent s ! push_bit v 1)[v := - 1]]\<rparr>)"

text \<open>Lines 38 to 43, the body of the innermost loop. The conjunction short-circuits:
  \<^verbatim>\<open>adj[u][v]\<close> is read only when bit \<^verbatim>\<open>v\<close> of the mask is clear, and that read raises
  \<^verbatim>\<open>IndexError\<close> when the row is too short. The table cell (next_mask, v) exists for
  every mask below \<^verbatim>\<open>1 << n\<close> and every \<^verbatim>\<open>v\<close> below \<^verbatim>\<open>n\<close> (lemma \<open>next_mask_less\<close>).\<close>

definition extend :: "nat \<Rightarrow> nat \<Rightarrow> nat \<Rightarrow> state \<Rightarrow> error + state" where
  "extend msk u v s =
     (if msk AND push_bit v 1 = 0 then
        (case get (adj s) (int u) of
           Inl e \<Rightarrow> Inl e
         | Inr row \<Rightarrow>
            (case get row (int v) of
               Inl e \<Rightarrow> Inl e
             | Inr a \<Rightarrow>
                if a \<noteq> 0 then
                  (let next_mask = msk OR push_bit v 1 in
                   if \<not> dp s ! next_mask ! v then
                     Inr (s\<lparr>dp := (dp s)[next_mask := (dp s ! next_mask)[v := True]],
                            parent := (parent s)[next_mask := (parent s ! next_mask)[v := int u]]\<rparr>)
                   else Inr s)
                else Inr s))
      else Inr s)"

text \<open>Lines 34 to 43: the loop over \<^verbatim>\<open>u\<close> for one mask, and inside it the loop over
  \<^verbatim>\<open>v\<close>, entered only when \<^verbatim>\<open>dp[mask][u]\<close> holds. That read is in range: the
  mask comes from \<^verbatim>\<open>range(1 << n)\<close> and \<^verbatim>\<open>u\<close> from \<^verbatim>\<open>range(n)\<close>.\<close>

definition extend_from :: "nat \<Rightarrow> nat \<Rightarrow> nat \<Rightarrow> state \<Rightarrow> error + state" where
  "extend_from n msk u s =
     (if dp s ! msk ! u then for_loop (extend msk u) [0..<n] s else Inr s)"

definition process_mask :: "nat \<Rightarrow> nat \<Rightarrow> state \<Rightarrow> error + state" where
  "process_mask n msk s = for_loop (extend_from n msk) [0..<n] s"

text \<open>Lines 28 to 43: both loops, from the fresh tables.\<close>

definition fill_tables :: "int list list \<Rightarrow> error + state" where
  "fill_tables a =
     (let n = length a in
      case for_loop base_case [0..<n] (init_state a) of
        Inl e \<Rightarrow> Inl e
      | Inr s \<Rightarrow> for_loop (process_mask n) [0..<push_bit n 1] s)"

text \<open>Lines 52 to 59, the \<^verbatim>\<open>while\<close> loop that follows the parent pointers. The list
  \<open>path\<close> is the Python list being appended to. \<^verbatim>\<open>1 << cur_v\<close> raises
  \<^verbatim>\<open>ValueError\<close> for a negative \<^verbatim>\<open>cur_v\<close>. The loop has no bound in the source, so the
  model is a partial function: \<open>None\<close> is a run that never leaves the loop.\<close>

partial_function (option) reconstruct ::
  "state \<Rightarrow> nat \<Rightarrow> int \<Rightarrow> int list \<Rightarrow> (error + int list) option" where
  "reconstruct s cur_mask cur_v path =
     (if cur_v \<noteq> - 1 then
        (case get (parent s) (int cur_mask) of
           Inl e \<Rightarrow> Some (Inl e)
         | Inr row \<Rightarrow>
            (case get row cur_v of
               Inl e \<Rightarrow> Some (Inl e)
             | Inr prev \<Rightarrow>
                if prev = - 1 then Some (Inr (path @ [cur_v]))
                else if cur_v < 0 then Some (Inl ValueError)
                else reconstruct s (cur_mask XOR push_bit (nat cur_v) 1) prev (path @ [cur_v])))
      else Some (Inr path))"

declare reconstruct.simps [code]

text \<open>Lines 46 to 62: the scan for the first \<^verbatim>\<open>v\<close> with \<^verbatim>\<open>dp[full_mask][v]\<close>, the
  reconstruction from it, \<^verbatim>\<open>path.reverse()\<close>, and the two return statements. The row
  \<^verbatim>\<open>full_mask = (1 << n) - 1\<close> is the last row of the table, so the read is in range.\<close>

fun scan :: "state \<Rightarrow> nat \<Rightarrow> nat list \<Rightarrow> (error + bool \<times> int list) option" where
  "scan s full_mask [] = Some (Inr (False, []))"
| "scan s full_mask (v # vs) =
     (if dp s ! full_mask ! v then
        (case reconstruct s full_mask (int v) [] of
           None \<Rightarrow> None
         | Some (Inl e) \<Rightarrow> Some (Inl e)
         | Some (Inr path) \<Rightarrow> Some (Inr (True, rev path)))
      else scan s full_mask vs)"

definition find_hamiltonian_path :: "int list list \<Rightarrow> (error + bool \<times> int list) option" where
  "find_hamiltonian_path a =
     (let n = length a; full_mask = push_bit n 1 - 1 in
      case fill_tables a of
        Inl e \<Rightarrow> Some (Inl e)
      | Inr s \<Rightarrow> scan s full_mask [0..<n])"

text \<open>Lines 64 to 91, the entry point. \<open>input_data\<close> is a dictionary; a missing key
  raises \<^verbatim>\<open>KeyError\<close>. \<^verbatim>\<open>int(exists)\<close> is 1 for \<^verbatim>\<open>True\<close> and 0 for \<^verbatim>\<open>False\<close>.\<close>

definition run ::
  "(string \<rightharpoonup> int list list) \<Rightarrow> 'p option \<Rightarrow> 'q option \<Rightarrow> (error + response) option" where
  "run input_data solver_params extra_arguments =
     (case input_data ''adjacency_matrix'' of
        None \<Rightarrow> Some (Inl KeyError)
      | Some adjacency_matrix \<Rightarrow>
         (case find_hamiltonian_path adjacency_matrix of
            None \<Rightarrow> None
          | Some (Inl e) \<Rightarrow> Some (Inl e)
          | Some (Inr (exists, best_solution)) \<Rightarrow>
              Some (Inr \<lparr>optimal_solution = best_solution,
                         existence = (if exists then 1 else 0)\<rparr>)))"

text \<open>A call seen from outside. It starts in a state whose \<open>adj\<close> is the argument and
  whose \<open>dp\<close> and \<open>parent\<close> are anything at all, for instance what an earlier call
  left behind; lines 23 and 25 bind the two names to new tables; the loops, the scan and the
  reconstruction run as in \<open>find_hamiltonian_path\<close>; a normal return gives the result
  together with the state the call ends in. \<open>result_of\<close> forgets that state.\<close>

definition call :: "state \<Rightarrow> (error + (bool \<times> int list) \<times> state) option" where
  "call s0 =
     (let n = length (adj s0); full_mask = push_bit n 1 - 1;
          s1 = s0\<lparr>dp := replicate (push_bit n 1) (replicate n False),
                  parent := replicate (push_bit n 1) (replicate n (- 1))\<rparr>
      in case for_loop base_case [0..<n] s1 of
           Inl e \<Rightarrow> Some (Inl e)
         | Inr s2 \<Rightarrow>
            (case for_loop (process_mask n) [0..<push_bit n 1] s2 of
               Inl e \<Rightarrow> Some (Inl e)
             | Inr s3 \<Rightarrow>
                (case scan s3 full_mask [0..<n] of
                   None \<Rightarrow> None
                 | Some (Inl e) \<Rightarrow> Some (Inl e)
                 | Some (Inr r) \<Rightarrow> Some (Inr (r, s3)))))"

definition result_of :: "(error + 'r \<times> 's) option \<Rightarrow> (error + 'r) option" where
  "result_of c = (case c of None \<Rightarrow> None | Some (Inl e) \<Rightarrow> Some (Inl e)
     | Some (Inr (r, s)) \<Rightarrow> Some (Inr r))"

section \<open>Specification vocabulary\<close>

text \<open>The edge relation of the graph: \<^verbatim>\<open>adj[u][v]\<close> exists and is truthy.\<close>

definition edge :: "int list list \<Rightarrow> nat \<Rightarrow> nat \<Rightarrow> bool" where
  "edge a u v = (u < length a \<and> v < length (a ! u) \<and> a ! u ! v \<noteq> 0)"

text \<open>A well-formed input: every row is as long as the matrix has rows.\<close>

definition square :: "int list list \<Rightarrow> bool" where
  "square a = (\<forall>row \<in> set a. length row = length a)"

text \<open>What the specification asks of a returned path: it has one entry per vertex, every
  vertex number from 0 to n - 1 occurs in it, none twice, and each entry is joined to the
  next one by an edge.\<close>

definition valid_path :: "int list list \<Rightarrow> int list \<Rightarrow> bool" where
  "valid_path a path =
     (length path = length a \<and> distinct path \<and> set path = int ` {..<length a} \<and>
      (\<forall>i. Suc i < length path \<longrightarrow> edge a (nat (path ! i)) (nat (path ! Suc i))))"

text \<open>A Hamiltonian path of the graph, as a list of vertex numbers.\<close>

definition hamiltonian :: "int list list \<Rightarrow> nat list \<Rightarrow> bool" where
  "hamiltonian a p = (distinct p \<and> set p = {..<length a} \<and> successively (edge a) p)"

text \<open>The exhaustive permutation search the specification compares the verdict with:
  enumerate every ordering of the vertices and accept when one of them has an edge between
  every consecutive pair. \<open>interleave x ys\<close> lists the ways of inserting \<open>x\<close> into
  \<open>ys\<close>.\<close>

fun interleave :: "'a \<Rightarrow> 'a list \<Rightarrow> 'a list list" where
  "interleave x [] = [[x]]"
| "interleave x (y # ys) = (x # y # ys) # map ((#) y) (interleave x ys)"

fun permutations :: "'a list \<Rightarrow> 'a list list" where
  "permutations [] = [[]]"
| "permutations (x # xs) = concat (map (interleave x) (permutations xs))"

definition exhaustive_search :: "int list list \<Rightarrow> bool" where
  "exhaustive_search a = list_ex (successively (edge a)) (permutations [0..<length a])"

text \<open>One cell of each table.\<close>

definition cell :: "state \<Rightarrow> nat \<Rightarrow> nat \<Rightarrow> bool" where
  "cell s m w = dp s ! m ! w"

definition pred :: "state \<Rightarrow> nat \<Rightarrow> nat \<Rightarrow> int" where
  "pred s m w = parent s ! m ! w"

text \<open>The shape of the tables: \<open>2 ^ n\<close> rows of \<open>n\<close> entries.\<close>

definition dims :: "nat \<Rightarrow> state \<Rightarrow> bool" where
  "dims n s = (length (dp s) = 2 ^ n \<and> length (parent s) = 2 ^ n \<and>
     (\<forall>m < 2 ^ n. length (dp s ! m) = n \<and> length (parent s ! m) = n))"

text \<open>Monotonicity of the tables between two states of one run, as the loop invariants
  use it: a cell that is set stays set and keeps its recorded predecessor.\<close>

definition write_once :: "nat \<Rightarrow> state \<Rightarrow> state \<Rightarrow> bool" where
  "write_once n s s' = (\<forall>m < 2 ^ n. \<forall>w < n. cell s m w \<longrightarrow>
     cell s' m w \<and> pred s' m w = pred s m w)"

text \<open>The invariant of the parent pointers: a set cell (m, w) has w in m, and it is
  either a one-vertex path with the sentinel, or its recorded predecessor u ends a path
  over m without w and has an edge to w.\<close>

definition sound :: "nat \<Rightarrow> state \<Rightarrow> bool" where
  "sound n s = (\<forall>m < 2 ^ n. \<forall>w < n. cell s m w \<longrightarrow>
     bit m w \<and>
     (pred s m w = - 1 \<and> m = 2 ^ w \<or>
      (\<exists>u < n. pred s m w = int u \<and> cell s (m XOR 2 ^ w) u \<and> edge (adj s) u w)))"

definition table_inv :: "nat \<Rightarrow> int list list \<Rightarrow> state \<Rightarrow> bool" where
  "table_inv n a s = (adj s = a \<and> dims n s \<and> sound n s)"

text \<open>The states (mask, end vertex) of the paths of the graph, built as the algorithm
  builds them: one-vertex paths, and extension by a vertex outside the mask.\<close>

inductive reach :: "int list list \<Rightarrow> nat \<Rightarrow> nat \<Rightarrow> nat \<Rightarrow> bool" for a n where
  single: "v < n \<Longrightarrow> reach a n (2 ^ v) v"
| step: "reach a n m u \<Longrightarrow> v < n \<Longrightarrow> \<not> bit m v \<Longrightarrow> edge a u v \<Longrightarrow> reach a n (m OR 2 ^ v) v"

text \<open>Progress of the loops: the extensions of (m, u) by the vertices below \<open>k\<close> are
  recorded; the base cases below \<open>k\<close> are recorded, and nothing else is; every mask
  below \<open>k\<close> has been processed.\<close>

definition extends :: "nat \<Rightarrow> int list list \<Rightarrow> state \<Rightarrow> nat \<Rightarrow> nat \<Rightarrow> nat \<Rightarrow> bool" where
  "extends n a s m u k = (\<forall>v < k. \<not> bit m v \<and> edge a u v \<longrightarrow> cell s (m OR 2 ^ v) v)"

definition base_done :: "nat \<Rightarrow> state \<Rightarrow> nat \<Rightarrow> bool" where
  "base_done n s k = (\<forall>v < k. cell s (2 ^ v) v)"

definition only_base :: "nat \<Rightarrow> state \<Rightarrow> nat \<Rightarrow> bool" where
  "only_base n s k = (\<forall>m < 2 ^ n. \<forall>w < n. cell s m w \<longrightarrow> w < k \<and> m = 2 ^ w)"

definition masks_done :: "nat \<Rightarrow> int list list \<Rightarrow> state \<Rightarrow> nat \<Rightarrow> bool" where
  "masks_done n a s k = (\<forall>m < k. \<forall>u. reach a n m u \<longrightarrow> extends n a s m u n)"

text \<open>The write-once discipline between two states of one run: every cell is either
  untouched, flag and recorded predecessor alike, or goes from unset to set. A predecessor
  is therefore written only into an unset cell and only together with its flag.\<close>

definition first_write :: "nat \<Rightarrow> state \<Rightarrow> state \<Rightarrow> bool" where
  "first_write n s s' = (\<forall>m < 2 ^ n. \<forall>w < n.
     (cell s' m w = cell s m w \<and> pred s' m w = pred s m w) \<or> (\<not> cell s m w \<and> cell s' m w))"

text \<open>The first predecessor wins: no lower vertex than the recorded one ends a path over
  the mask without \<open>w\<close> and has an edge to \<open>w\<close>. \<open>earlier\<close> says that the vertices
  below \<open>u\<close> have had their turn for the mask \<open>m\<close>.\<close>

definition first_inv :: "nat \<Rightarrow> int list list \<Rightarrow> state \<Rightarrow> bool" where
  "first_inv n a s = (\<forall>m < 2 ^ n. \<forall>w < n. \<forall>u. cell s m w \<and> pred s m w = int u \<longrightarrow>
     (\<forall>u' < u. \<not> (reach a n (m XOR 2 ^ w) u' \<and> edge a u' w)))"

definition earlier :: "nat \<Rightarrow> int list list \<Rightarrow> state \<Rightarrow> nat \<Rightarrow> nat \<Rightarrow> bool" where
  "earlier n a s m u = (\<forall>u' < u. reach a n m u' \<longrightarrow> extends n a s m u' n)"

text \<open>A path over the vertices of the mask \<open>m\<close>, listed from its end vertex backwards,
  as the reconstruction loop collects it.\<close>

definition back_path :: "int list list \<Rightarrow> nat \<Rightarrow> nat list \<Rightarrow> bool" where
  "back_path a m l = (l \<noteq> [] \<and> distinct l \<and> set l = {v. bit m v} \<and>
     successively (\<lambda>x y. edge a y x) l)"

text \<open>The output the tie-break rules single out, written without the tables: among the
  orderings of the vertices that are paths (and have an end vertex), the one whose reversal
  is lexicographically least, that is, the lowest end vertex, then the lowest vertex before
  it, and so on.\<close>

definition candidates :: "int list list \<Rightarrow> nat list list" where
  "candidates a =
     filter (\<lambda>p. p \<noteq> [] \<and> successively (edge a) p) (permutations [0..<length a])"

definition tie_break_result :: "int list list \<Rightarrow> bool \<times> int list" where
  "tie_break_result a =
     (case candidates a of
        [] \<Rightarrow> (False, [])
      | p # ps \<Rightarrow> (True, map int (rev (fold min (map rev ps) (rev p)))))"

text \<open>Example data: a graph in which the cell (7, 2) has the two predecessors 0 and 1,
  the tables of its run before and after the first write to that cell, and the state in
  which a call on the two-vertex cycle ends.\<close>

definition two_predecessors :: "int list list" where
  "two_predecessors = [[0, 1, 1], [1, 0, 1], [0, 0, 0]]"

definition before_mask_3 :: state where
  "before_mask_3 =
     \<lparr>adj = two_predecessors,
      dp = [[False, False, False], [True, False, False], [False, True, False],
            [True, True, False], [False, False, True], [False, False, True],
            [False, False, True], [False, False, False]],
      parent = [[- 1, - 1, - 1], [- 1, - 1, - 1], [- 1, - 1, - 1], [1, 0, - 1],
                [- 1, - 1, - 1], [- 1, - 1, 0], [- 1, - 1, 1], [- 1, - 1, - 1]]\<rparr>"

definition after_first_write :: state where
  "after_first_write =
     \<lparr>adj = two_predecessors,
      dp = [[False, False, False], [True, False, False], [False, True, False],
            [True, True, False], [False, False, True], [False, False, True],
            [False, False, True], [False, False, True]],
      parent = [[- 1, - 1, - 1], [- 1, - 1, - 1], [- 1, - 1, - 1], [1, 0, - 1],
                [- 1, - 1, - 1], [- 1, - 1, 0], [- 1, - 1, 1], [- 1, - 1, 0]]\<rparr>"

definition cycle_call_end :: state where
  "cycle_call_end =
     \<lparr>adj = [[0, 1], [1, 0]],
      dp = [[False, False], [True, False], [False, True], [True, True]],
      parent = [[- 1, - 1], [- 1, - 1], [- 1, - 1], [1, 0]]\<rparr>"

section \<open>Bit masks, table cells and loops\<close>

lemma xor_bit_less:
  assumes "bit (m::nat) v" shows "m XOR 2 ^ v < m"
proof -
  have "(m XOR 2 ^ v) AND 2 ^ v = 0"
    using assms by (simp add: and_exp_eq_0_iff_not_bit bit_xor_iff bit_exp_iff)
  then have "(m XOR 2 ^ v) + 2 ^ v = (m XOR 2 ^ v) XOR 2 ^ v"
    by (rule disjunctive_add_eq_xor)
  also have "\<dots> = m"
    by (simp add: xor.assoc)
  finally have "(m XOR 2 ^ v) + 2 ^ v = m" .
  moreover have "(0::nat) < 2 ^ v" by simp
  ultimately show ?thesis by linarith
qed

lemma next_mask_greater:
  assumes "\<not> bit (m::nat) v" shows "m < m OR 2 ^ v"
proof -
  have "m AND 2 ^ v = 0"
    using assms by (simp add: and_exp_eq_0_iff_not_bit)
  then have "m + 2 ^ v = m OR 2 ^ v"
    by (rule disjunctive_add_eq_or)
  moreover have "(0::nat) < 2 ^ v" by simp
  ultimately show ?thesis by linarith
qed

lemma nth2_update:
  "m < length t \<Longrightarrow> w < length (t ! m) \<Longrightarrow>
   t[m := (t ! m)[w := x]] ! m' ! w' = (if m' = m \<and> w' = w then x else t ! m' ! w')"
  by (auto simp add: nth_list_update)

lemma get_nat: "get xs (int i) = (if i < length xs then Inr (xs ! i) else Inl IndexError)"
  by (simp add: get_def)

lemma for_loop_append:
  "for_loop f (xs @ ys) s = (case for_loop f xs s of Inl e \<Rightarrow> Inl e | Inr s' \<Rightarrow> for_loop f ys s')"
  by (induction xs arbitrary: s) (auto split: sum.splits)

lemma for_loop_upt_rule:
  assumes "for_loop f [0..<n] s = Inr s'" and "P 0 s"
    and "\<And>i t t'. i < n \<Longrightarrow> P i t \<Longrightarrow> f i t = Inr t' \<Longrightarrow> P (Suc i) t'"
  shows "P n s'"
  using assms
proof (induction n arbitrary: s')
  case 0
  then show ?case by simp
next
  case (Suc n)
  from Suc.prems(1) obtain t where t: "for_loop f [0..<n] s = Inr t" and t': "f n t = Inr s'"
    by (auto simp add: for_loop_append split: sum.splits)
  have "P n t"
    using t Suc.prems(2) by (rule Suc.IH) (simp add: Suc.prems(3))
  then show ?case
    using t' Suc.prems(3) by blast
qed

lemma for_loop_upt_total:
  assumes "P 0 s"
    and "\<And>i t. i < n \<Longrightarrow> P i t \<Longrightarrow> \<exists>t'. f i t = Inr t' \<and> P (Suc i) t'"
  shows "\<exists>s'. for_loop f [0..<n] s = Inr s' \<and> P n s'"
  using assms
proof (induction n)
  case 0
  then show ?case by simp
next
  case (Suc n)
  have "\<exists>t. for_loop f [0..<n] s = Inr t \<and> P n t"
    using Suc.prems(1) by (rule Suc.IH) (simp add: Suc.prems(2))
  then obtain t where t: "for_loop f [0..<n] s = Inr t" "P n t" by blast
  from Suc.prems(2) [OF _ t(2)] obtain t' where "f n t = Inr t'" "P (Suc n) t'" by auto
  with t show ?case by (simp add: for_loop_append)
qed

lemma bit_or_bit: "bit ((m::nat) OR 2 ^ v) w = (bit m w \<or> w = v)"
  by (auto simp add: bit_or_iff bit_exp_iff)

lemma bit_xor_bit: "bit ((m::nat) XOR 2 ^ v) w = (bit m w \<noteq> (w = v))"
  by (auto simp add: bit_xor_iff bit_exp_iff)

lemma bit_single: "bit ((2::nat) ^ v) w = (w = v)"
  by (auto simp add: bit_exp_iff)

lemma and_bit_zero: "((m::nat) AND 2 ^ v = 0) = (\<not> bit m v)"
  by (simp add: and_exp_eq_0_iff_not_bit)

lemma next_mask_less: "(m::nat) < 2 ^ n \<Longrightarrow> v < n \<Longrightarrow> m OR 2 ^ v < 2 ^ n"
  by (simp add: take_bit_nat_eq_self_iff [symmetric] take_bit_push_bit)

lemma or_xor_bit: "\<not> bit (m::nat) v \<Longrightarrow> (m OR 2 ^ v) XOR 2 ^ v = m"
  by (rule bit_eqI) (auto simp add: bit_xor_bit bit_or_bit)

lemma write_once_refl: "write_once n s s"
  by (simp add: write_once_def)

lemma write_once_trans: "write_once n s t \<Longrightarrow> write_once n t r \<Longrightarrow> write_once n s r"
  by (simp add: write_once_def)

lemma write_onceD: "write_once n s t \<Longrightarrow> m < 2 ^ n \<Longrightarrow> w < n \<Longrightarrow> cell s m w \<Longrightarrow> cell t m w"
  by (simp add: write_once_def)

lemma cell_write:
  assumes "dims n s" "m < 2 ^ n" "w < n" "m' < 2 ^ n" "w' < n"
  shows "cell (s\<lparr>dp := (dp s)[m := (dp s ! m)[w := True]],
                  parent := (parent s)[m := (parent s ! m)[w := x]]\<rparr>) m' w'
         = (m' = m \<and> w' = w \<or> cell s m' w')"
  using assms by (auto simp add: cell_def dims_def nth2_update)

lemma pred_write:
  assumes "dims n s" "m < 2 ^ n" "w < n" "m' < 2 ^ n" "w' < n"
  shows "pred (s\<lparr>dp := (dp s)[m := (dp s ! m)[w := True]],
                  parent := (parent s)[m := (parent s ! m)[w := x]]\<rparr>) m' w'
         = (if m' = m \<and> w' = w then x else pred s m' w')"
  using assms by (auto simp add: pred_def dims_def nth2_update)

lemma dims_write:
  assumes "dims n s" "m < 2 ^ n"
  shows "dims n (s\<lparr>dp := (dp s)[m := (dp s ! m)[w := True]],
                  parent := (parent s)[m := (parent s ! m)[w := x]]\<rparr>)"
  using assms by (auto simp add: dims_def nth_list_update)

lemma xor_bit_bound: "m < 2 ^ n \<Longrightarrow> bit (m::nat) w \<Longrightarrow> m XOR 2 ^ w < 2 ^ n"
  using xor_bit_less [of m w] by simp

lemma sound_write:
  assumes d: "dims n s" and s: "sound n s" and m: "m < 2 ^ n" and w: "w < n"
    and b: "bit m w"
    and new: "x = - 1 \<and> m = 2 ^ w \<or>
       (\<exists>u < n. x = int u \<and> cell s (m XOR 2 ^ w) u \<and> edge (adj s) u w)"
  shows "sound n (s\<lparr>dp := (dp s)[m := (dp s ! m)[w := True]],
                  parent := (parent s)[m := (parent s ! m)[w := x]]\<rparr>)"
    (is "sound n ?s'")
  unfolding sound_def
proof (intro allI impI)
  fix m' w'
  assume m': "m' < 2 ^ n" and w': "w' < n" and c: "cell ?s' m' w'"
  have keep: "cell ?s' k u" if "cell s k u" "k < 2 ^ n" "u < n" for k u
    using that by (simp add: cell_write [OF d m w])
  have a: "adj ?s' = adj s" by simp
  show "bit m' w' \<and>
       (pred ?s' m' w' = - 1 \<and> m' = 2 ^ w' \<or>
        (\<exists>u<n. pred ?s' m' w' = int u \<and> cell ?s' (m' XOR 2 ^ w') u \<and>
           edge (adj ?s') u w'))"
  proof (cases "m' = m \<and> w' = w")
    case True
    then have p: "pred ?s' m' w' = x"
      by (simp add: pred_write [OF d m w m w])
    from new show ?thesis
    proof
      assume h: "x = - 1 \<and> m = 2 ^ w"
      have "pred ?s' m' w' = - 1" using p h by metis
      with h True b show ?thesis by blast
    next
      assume "\<exists>u<n. x = int u \<and> cell s (m XOR 2 ^ w) u \<and> edge (adj s) u w"
      then obtain u where u: "u < n" "x = int u" "cell s (m XOR 2 ^ w) u"
        "edge (adj s) u w" by blast
      have "cell ?s' (m XOR 2 ^ w) u"
        using u(3) xor_bit_bound [OF m b] u(1) by (rule keep)
      moreover have "pred ?s' m' w' = int u" using p u(2) by metis
      moreover have "edge (adj ?s') u w" using a u(4) by metis
      ultimately show ?thesis using True b u(1) by blast
    qed
  next
    case False
    then have old: "cell s m' w'"
      using c by (auto simp add: cell_write [OF d m w m' w'])
    have p: "pred ?s' m' w' = pred s m' w'"
      using False by (auto simp add: pred_write [OF d m w m' w'])
    from s old m' w' have b': "bit m' w'" and
      alt: "pred s m' w' = - 1 \<and> m' = 2 ^ w' \<or>
        (\<exists>u<n. pred s m' w' = int u \<and> cell s (m' XOR 2 ^ w') u \<and> edge (adj s) u w')"
      unfolding sound_def by blast+
    from alt show ?thesis
    proof
      assume h: "pred s m' w' = - 1 \<and> m' = 2 ^ w'"
      have "pred ?s' m' w' = - 1" using p h by metis
      with h b' show ?thesis by blast
    next
      assume "\<exists>u<n. pred s m' w' = int u \<and> cell s (m' XOR 2 ^ w') u \<and> edge (adj s) u w'"
      then obtain u where u: "u < n" "pred s m' w' = int u" "cell s (m' XOR 2 ^ w') u"
        "edge (adj s) u w'" by blast
      have "cell ?s' (m' XOR 2 ^ w') u"
        using u(3) xor_bit_bound [OF m' b'] u(1) by (rule keep)
      moreover have "pred ?s' m' w' = int u" using p u(2) by metis
      moreover have "edge (adj ?s') u w'" using a u(4) by metis
      ultimately show ?thesis using b' u(1) by blast
    qed
  qed
qed

lemma write_once_write:
  assumes "dims n s" "m < 2 ^ n" "w < n" "\<not> cell s m w"
  shows "write_once n s (s\<lparr>dp := (dp s)[m := (dp s ! m)[w := True]],
                  parent := (parent s)[m := (parent s ! m)[w := x]]\<rparr>)"
  unfolding write_once_def
  using assms by (auto simp add: cell_write [OF assms(1-3)] pred_write [OF assms(1-3)])

section \<open>One step of the innermost loop, and the loops around it\<close>

lemma extend_cases:
  assumes "extend m u v s = Inr s'"
  shows "s' = s \<and> (bit m v \<or> \<not> edge (adj s) u v \<or> cell s (m OR 2 ^ v) v) \<or>
    \<not> bit m v \<and> edge (adj s) u v \<and> \<not> cell s (m OR 2 ^ v) v \<and>
    s' = s\<lparr>dp := (dp s)[m OR 2 ^ v := (dp s ! (m OR 2 ^ v))[v := True]],
           parent := (parent s)[m OR 2 ^ v := (parent s ! (m OR 2 ^ v))[v := int u]]\<rparr>"
  using assms
  by (auto simp add: extend_def get_nat and_bit_zero edge_def cell_def Let_def
      split: if_splits sum.splits)

lemma extend_no_error:
  assumes "square a" "adj s = a" "u < length a" "v < length a"
  shows "\<exists>s'. extend m u v s = Inr s'"
  using assms by (auto simp add: extend_def get_nat square_def Let_def)

lemma extend_step:
  assumes r: "extend m u v s = Inr s'" and i: "table_inv n a s"
    and m: "m < 2 ^ n" and u: "u < n" and v: "v < n" and c: "cell s m u"
  shows "table_inv n a s' \<and> write_once n s s' \<and>
    (\<not> bit m v \<and> edge a u v \<longrightarrow> cell s' (m OR 2 ^ v) v)"
proof -
  from i have a: "adj s = a" and d: "dims n s" and so: "sound n s"
    by (simp_all add: table_inv_def)
  let ?k = "m OR 2 ^ v"
  have k: "?k < 2 ^ n" using m v by (rule next_mask_less)
  from extend_cases [OF r] show ?thesis
  proof
    assume "s' = s \<and> (bit m v \<or> \<not> edge (adj s) u v \<or> cell s ?k v)"
    with i a show ?thesis by (auto simp add: write_once_refl)
  next
    assume h: "\<not> bit m v \<and> edge (adj s) u v \<and> \<not> cell s ?k v \<and>
      s' = s\<lparr>dp := (dp s)[?k := (dp s ! ?k)[v := True]],
             parent := (parent s)[?k := (parent s ! ?k)[v := int u]]\<rparr>"
    then have s': "s' = s\<lparr>dp := (dp s)[?k := (dp s ! ?k)[v := True]],
             parent := (parent s)[?k := (parent s ! ?k)[v := int u]]\<rparr>" by blast
    from h have nb: "\<not> bit m v" and e: "edge (adj s) u v" and nc: "\<not> cell s ?k v" by blast+
    have "adj s' = a" using a by (simp add: s')
    moreover have "dims n s'" unfolding s' using d k by (rule dims_write)
    moreover have "sound n s'" unfolding s' using d so k v
    proof (rule sound_write)
      show "bit ?k v" by (simp add: bit_or_bit)
      have "cell s (?k XOR 2 ^ v) u" using c nb by (simp add: or_xor_bit)
      with u e show "int u = - 1 \<and> ?k = 2 ^ v \<or>
        (\<exists>w<n. int u = int w \<and> cell s (?k XOR 2 ^ v) w \<and> edge (adj s) w v)"
        by blast
    qed
    moreover have "write_once n s s'" unfolding s' using d k v nc by (rule write_once_write)
    moreover have "cell s' ?k v" unfolding s' by (simp add: cell_write [OF d k v k v])
    ultimately show ?thesis by (simp add: table_inv_def)
  qed
qed

lemma extends_mono:
  assumes "extends n a s m u k" "write_once n s t" "m < 2 ^ n" "k \<le> n"
  shows "extends n a t m u k"
  unfolding extends_def
proof (intro allI impI)
  fix v assume v: "v < k" and h: "\<not> bit m v \<and> edge a u v"
  with assms(1) have "cell s (m OR 2 ^ v) v" by (simp add: extends_def)
  moreover have vn: "v < n" using v assms(4) by simp
  moreover have "m OR 2 ^ v < 2 ^ n" using assms(3) vn by (rule next_mask_less)
  ultimately show "cell t (m OR 2 ^ v) v" using assms(2) write_onceD by blast
qed

lemma extend_from_step:
  assumes r: "extend_from n m u s = Inr s'" and i: "table_inv n a s"
    and m: "m < 2 ^ n" and u: "u < n"
  shows "table_inv n a s' \<and> write_once n s s' \<and> (cell s m u \<longrightarrow> extends n a s' m u n)"
proof (cases "cell s m u")
  case False
  with r have "s' = s" by (simp add: extend_from_def cell_def)
  with i False show ?thesis by (simp add: write_once_refl)
next
  case True
  with r have l: "for_loop (extend m u) [0..<n] s = Inr s'"
    by (simp add: extend_from_def cell_def)
  let ?P = "\<lambda>j t. j \<le> n \<and> table_inv n a t \<and> write_once n s t \<and> extends n a t m u j"
  have "?P n s'"
    using l
  proof (rule for_loop_upt_rule [where P = ?P])
    show "?P 0 s" using i by (simp add: write_once_refl extends_def)
  next
    fix j t t'
    assume j: "j < n" and p: "?P j t" and e: "extend m u j t = Inr t'"
    from p have it: "table_inv n a t" and wt: "write_once n s t" and et: "extends n a t m u j"
      by blast+
    have ct: "cell t m u" using wt m u True by (rule write_onceD)
    from extend_step [OF e it m u j ct]
    have it': "table_inv n a t'" and w': "write_once n t t'"
      and new: "\<not> bit m j \<and> edge a u j \<longrightarrow> cell t' (m OR 2 ^ j) j"
      by blast+
    have "extends n a t' m u j" using et w' m j by (simp add: extends_mono)
    with new have "extends n a t' m u (Suc j)"
      by (auto simp add: extends_def less_Suc_eq)
    moreover have "write_once n s t'" using wt w' by (rule write_once_trans)
    ultimately show "?P (Suc j) t'" using it' j by simp
  qed
  with True show ?thesis by simp
qed

lemma process_mask_step:
  assumes r: "process_mask n m s = Inr s'" and i: "table_inv n a s" and m: "m < 2 ^ n"
  shows "table_inv n a s' \<and> write_once n s s' \<and> (\<forall>u < n. cell s m u \<longrightarrow> extends n a s' m u n)"
proof -
  let ?P = "\<lambda>j t. j \<le> n \<and> table_inv n a t \<and> write_once n s t \<and>
     (\<forall>u < j. cell s m u \<longrightarrow> extends n a t m u n)"
  from r have l: "for_loop (extend_from n m) [0..<n] s = Inr s'"
    by (simp add: process_mask_def)
  have "?P n s'"
    using l
  proof (rule for_loop_upt_rule [where P = ?P])
    show "?P 0 s" using i by (simp add: write_once_refl)
  next
    fix j t t'
    assume j: "j < n" and p: "?P j t" and e: "extend_from n m j t = Inr t'"
    from p have it: "table_inv n a t" and wt: "write_once n s t"
      and et: "\<forall>u < j. cell s m u \<longrightarrow> extends n a t m u n"
      by blast+
    from extend_from_step [OF e it m j]
    have it': "table_inv n a t'" and w': "write_once n t t'"
      and new: "cell t m j \<longrightarrow> extends n a t' m j n"
      by blast+
    have "extends n a t' m u n" if "u < Suc j" "cell s m u" for u
    proof (cases "u = j")
      case True
      have "cell t m j" using wt m j that(2) [unfolded True] by (rule write_onceD)
      with new True show ?thesis by simp
    next
      case False
      with that have "extends n a t m u n" using et by simp
      then show ?thesis using w' m by (simp add: extends_mono)
    qed
    moreover have "write_once n s t'" using wt w' by (rule write_once_trans)
    ultimately show "?P (Suc j) t'" using it' j by simp
  qed
  then show ?thesis by simp
qed

section \<open>The tables after both loops\<close>

lemma reach_bounds: "reach a n m u \<Longrightarrow> m < 2 ^ n \<and> u < n \<and> bit m u"
proof (induction rule: reach.induct)
  case (single v)
  then show ?case by (simp add: bit_single)
next
  case (step m u v)
  then show ?case by (simp add: next_mask_less bit_or_bit)
qed

lemma extend_adj: "extend m u v s = Inr s' \<Longrightarrow> adj s' = adj s"
  using extend_cases [of m u v s s'] by auto

lemma table_inv_init: "table_inv (length a) a (init_state a)"
  by (simp add: table_inv_def init_state_def dims_def sound_def cell_def Let_def)

lemma base_case_step:
  assumes r: "base_case v s = Inr s'" and i: "table_inv n a s" and v: "v < n"
    and o: "only_base n s v"
  shows "table_inv n a s' \<and> write_once n s s' \<and> cell s' (2 ^ v) v \<and> only_base n s' (Suc v)"
proof -
  from i have a: "adj s = a" and d: "dims n s" and so: "sound n s"
    by (simp_all add: table_inv_def)
  have k: "(2::nat) ^ v < 2 ^ n" using v by simp
  from r have s': "s' = s\<lparr>dp := (dp s)[2 ^ v := (dp s ! (2 ^ v))[v := True]],
             parent := (parent s)[2 ^ v := (parent s ! (2 ^ v))[v := - 1]]\<rparr>"
    by (simp add: base_case_def)
  have nc: "\<not> cell s (2 ^ v) v"
  proof
    assume "cell s (2 ^ v) v"
    with o k v have "v < v" unfolding only_base_def by blast
    then show False by simp
  qed
  have "adj s' = a" using a by (simp add: s')
  moreover have "dims n s'" unfolding s' using d k by (rule dims_write)
  moreover have "sound n s'" unfolding s' using d so k v
  proof (rule sound_write)
    show "bit ((2::nat) ^ v) v" by (simp add: bit_single)
    show "- 1 = - 1 \<and> (2::nat) ^ v = 2 ^ v \<or>
        (\<exists>w<n. - 1 = int w \<and> cell s (2 ^ v XOR 2 ^ v) w \<and> edge (adj s) w v)"
      by simp
  qed
  moreover have "write_once n s s'" unfolding s' using d k v nc by (rule write_once_write)
  moreover have "cell s' (2 ^ v) v" unfolding s' by (simp add: cell_write [OF d k v k v])
  moreover have "only_base n s' (Suc v)"
    unfolding only_base_def
  proof (intro allI impI)
    fix m w assume m: "m < 2 ^ n" and w: "w < n" and c: "cell s' m w"
    then have "m = 2 ^ v \<and> w = v \<or> cell s m w"
      unfolding s' by (simp add: cell_write [OF d k v m w])
    with o m w show "w < Suc v \<and> m = 2 ^ w"
      by (auto simp add: only_base_def less_Suc_eq)
  qed
  ultimately show ?thesis by (simp add: table_inv_def)
qed

lemma only_base_init: "only_base (length a) (init_state a) 0"
  by (simp add: only_base_def init_state_def cell_def Let_def)

lemma base_loop_result:
  assumes r: "for_loop base_case [0..<k] (init_state a) = Inr s" and n: "n = length a"
    and k: "k \<le> n"
  shows "table_inv n a s \<and> only_base n s k \<and> base_done n s k"
proof -
  let ?P = "\<lambda>j t. table_inv n a t \<and> only_base n t j \<and> base_done n t j"
  show "?P k s"
    using r
  proof (rule for_loop_upt_rule [where P = ?P])
    show "?P 0 (init_state a)"
      using n by (simp add: table_inv_init only_base_init base_done_def)
  next
    fix j t t'
    assume jk: "j < k" and p: "?P j t" and e: "base_case j t = Inr t'"
    from jk k have j: "j < n" by simp
    from p have it: "table_inv n a t" and ot: "only_base n t j" and bt: "base_done n t j"
      by blast+
    from base_case_step [OF e it j ot]
    have it': "table_inv n a t'" and w': "write_once n t t'" and c: "cell t' (2 ^ j) j"
      and o': "only_base n t' (Suc j)"
      by blast+
    have "cell t' (2 ^ v) v" if "v < Suc j" for v
    proof (cases "v = j")
      case True
      with c show ?thesis by simp
    next
      case False
      with that have vj: "v < j" by simp
      then have "cell t (2 ^ v) v" using bt by (simp add: base_done_def)
      moreover have "(2::nat) ^ v < 2 ^ n" "v < n" using vj j by simp_all
      ultimately show ?thesis using w' write_onceD by blast
    qed
    then have "base_done n t' (Suc j)" by (simp add: base_done_def)
    with it' o' show "?P (Suc j) t'" by simp
  qed
qed

lemma reach_cell:
  assumes r: "reach a n m u" and b: "base_done n s n" and d: "masks_done n a s m"
  shows "cell s m u"
  using r
proof (cases rule: reach.cases)
  case single
  with b show ?thesis by (simp add: base_done_def)
next
  case (step m' u')
  have "m' < m" unfolding step(1) using step(4) by (rule next_mask_greater)
  with d step(2) have "extends n a s m' u' n" by (simp add: masks_done_def)
  with step show ?thesis by (simp add: extends_def)
qed

lemma mask_loop_result:
  assumes r: "for_loop (process_mask n) [0..<2 ^ n] s = Inr s'"
    and i: "table_inv n a s" and b: "base_done n s n"
  shows "table_inv n a s' \<and> base_done n s' n \<and> masks_done n a s' (2 ^ n)"
proof -
  let ?P = "\<lambda>k t. k \<le> 2 ^ n \<and> table_inv n a t \<and> base_done n t n \<and> masks_done n a t k"
  have "?P (2 ^ n) s'"
    using r
  proof (rule for_loop_upt_rule [where P = ?P])
    show "?P 0 s" using i b by (simp add: masks_done_def)
  next
    fix k t t'
    assume k: "k < 2 ^ n" and p: "?P k t" and e: "process_mask n k t = Inr t'"
    from p have it: "table_inv n a t" and bt: "base_done n t n" and mt: "masks_done n a t k"
      by blast+
    from process_mask_step [OF e it k]
    have it': "table_inv n a t'" and w': "write_once n t t'"
      and new: "\<forall>u < n. cell t k u \<longrightarrow> extends n a t' k u n"
      by blast+
    have "base_done n t' n"
      unfolding base_done_def
    proof (intro allI impI)
      fix v assume v: "v < n"
      then have "cell t (2 ^ v) v" using bt by (simp add: base_done_def)
      moreover have "(2::nat) ^ v < 2 ^ n" using v by simp
      ultimately show "cell t' (2 ^ v) v" using w' v write_onceD by blast
    qed
    moreover have "masks_done n a t' (Suc k)"
      unfolding masks_done_def
    proof (intro allI impI)
      fix m u assume m: "m < Suc k" and ru: "reach a n m u"
      show "extends n a t' m u n"
      proof (cases "m = k")
        case True
        have "cell t k u" using ru [unfolded True] bt mt by (rule reach_cell)
        moreover have "u < n" using ru reach_bounds by blast
        ultimately show ?thesis using new True by simp
      next
        case False
        with m have mk: "m < k" by simp
        with mt ru have "extends n a t m u n" by (simp add: masks_done_def)
        moreover have "m < 2 ^ n" using mk k by simp
        ultimately show ?thesis using w' by (simp add: extends_mono)
      qed
    qed
    ultimately show "?P (Suc k) t'" using it' k by simp
  qed
  then show ?thesis by simp
qed

lemma fill_tables_result:
  assumes r: "fill_tables a = Inr s" and n: "n = length a"
  shows "table_inv n a s \<and> (\<forall>m u. reach a n m u \<longrightarrow> cell s m u)"
proof -
  from r obtain t where t: "for_loop base_case [0..<n] (init_state a) = Inr t"
    and s: "for_loop (process_mask n) [0..<2 ^ n] t = Inr s"
    by (auto simp add: fill_tables_def Let_def n split: sum.splits)
  from base_loop_result [OF t n order_refl]
  have it: "table_inv n a t" and bt: "base_done n t n"
    by blast+
  from mask_loop_result [OF s it bt]
  have i: "table_inv n a s" and b: "base_done n s n" and m: "masks_done n a s (2 ^ n)"
    by blast+
  have "cell s k u" if "reach a n k u" for k u
  proof -
    have "k < 2 ^ n" using that reach_bounds by blast
    with m have "masks_done n a s k" by (simp add: masks_done_def)
    with that b show ?thesis by (rule reach_cell)
  qed
  with i show ?thesis by blast
qed

section \<open>Reconstruction and the final scan\<close>

lemma reconstruct_unfold:
  assumes "dims n s" "m < 2 ^ n" "w < n"
  shows "reconstruct s m (int w) acc =
    (if pred s m w = - 1 then Some (Inr (acc @ [int w]))
     else reconstruct s (m XOR 2 ^ w) (pred s m w) (acc @ [int w]))"
  using assms by (subst reconstruct.simps) (simp add: get_nat dims_def pred_def)

lemma reconstruct_result:
  assumes i: "table_inv n a s"
  shows "m < 2 ^ n \<Longrightarrow> w < n \<Longrightarrow> cell s m w \<Longrightarrow>
    \<exists>r. reconstruct s m (int w) acc = Some (Inr (acc @ map int (w # r))) \<and>
      distinct (w # r) \<and> set (w # r) = {v. bit m v} \<and>
      successively (\<lambda>x y. edge a y x) (w # r)"
proof (induction m arbitrary: w acc rule: less_induct)
  case (less m)
  from i have a: "adj s = a" and d: "dims n s" and so: "sound n s"
    by (simp_all add: table_inv_def)
  note unf = reconstruct_unfold [OF d less.prems(1,2), of acc]
  from so less.prems have b: "bit m w" and
    alt: "pred s m w = - 1 \<and> m = 2 ^ w \<or>
      (\<exists>u<n. pred s m w = int u \<and> cell s (m XOR 2 ^ w) u \<and> edge (adj s) u w)"
    unfolding sound_def by blast+
  from alt show ?case
  proof
    assume h: "pred s m w = - 1 \<and> m = 2 ^ w"
    then have p1: "pred s m w = - 1" by blast
    have "reconstruct s m (int w) acc = Some (Inr (acc @ map int (w # [])))"
      using unf p1 by simp
    moreover have "set (w # []) = {v. bit m v}"
      using h by (auto simp add: bit_single)
    ultimately show ?thesis by (intro exI [of _ "[]"]) simp
  next
    assume "\<exists>u<n. pred s m w = int u \<and> cell s (m XOR 2 ^ w) u \<and> edge (adj s) u w"
    then obtain u where u: "u < n" and p: "pred s m w = int u"
      and c: "cell s (m XOR 2 ^ w) u" and e: "edge a u w"
      using a by blast
    let ?m' = "m XOR 2 ^ w"
    have lt: "?m' < m" using b by (rule xor_bit_less)
    then have m': "?m' < 2 ^ n" using less.prems(1) by simp
    from less.IH [OF lt m' u c, of "acc @ [int w]"] obtain r where
      r: "reconstruct s ?m' (int u) (acc @ [int w]) = Some (Inr ((acc @ [int w]) @ map int (u # r)))"
      and dr: "distinct (u # r)" and sr: "set (u # r) = {v. bit ?m' v}"
      and er: "successively (\<lambda>x y. edge a y x) (u # r)"
      by blast
    have "reconstruct s m (int w) acc = Some (Inr (acc @ map int (w # u # r)))"
      using unf p r by simp
    moreover have "w \<notin> set (u # r)"
      unfolding sr using b by (simp add: bit_xor_bit)
    then have "distinct (w # u # r)" using dr by simp
    moreover have "set (w # u # r) = {v. bit m v}"
    proof -
      have "set (w # u # r) = insert w {v. bit ?m' v}" using sr by simp
      also have "\<dots> = {v. bit m v}" using b by (auto simp add: bit_xor_bit)
      finally show ?thesis .
    qed
    moreover have "successively (\<lambda>x y. edge a y x) (w # u # r)"
      using er e by simp
    ultimately show ?thesis by blast
  qed
qed

lemma bit_full_mask: "bit ((2::nat) ^ n - Suc 0) v = (v < n)"
proof -
  have "(2::nat) ^ n - Suc 0 = mask n" by (simp add: mask_eq_exp_minus_1)
  then show ?thesis by (simp add: bit_mask_iff)
qed

lemma scan_result:
  assumes i: "table_inv n a s" and f: "full < 2 ^ n" and bits: "{v. bit full v} = {..<n}"
  shows "set vs \<subseteq> {..<n} \<Longrightarrow>
    \<exists>ex path. scan s full vs = Some (Inr (ex, path)) \<and>
      (ex = (\<exists>v \<in> set vs. cell s full v)) \<and>
      (ex \<longrightarrow> distinct path \<and> set path = int ` {..<n} \<and>
         successively (\<lambda>x y. edge a (nat x) (nat y)) path) \<and>
      (\<not> ex \<longrightarrow> path = [])"
proof (induction vs)
  case Nil
  then show ?case by auto
next
  case (Cons v vs)
  then have v: "v < n" and vs: "set vs \<subseteq> {..<n}" by simp_all
  show ?case
  proof (cases "cell s full v")
    case True
    from reconstruct_result [OF i f v True, of "[]"] obtain r where
      r: "reconstruct s full (int v) [] = Some (Inr (map int (v # r)))"
      and dr: "distinct (v # r)" and sr: "set (v # r) = {w. bit full w}"
      and er: "successively (\<lambda>x y. edge a y x) (v # r)"
      by auto
    let ?path = "rev (map int (v # r))"
    have "scan s full (v # vs) = Some (Inr (True, ?path))"
      using True r by (simp add: cell_def)
    moreover have "distinct ?path"
      using dr by (simp only: distinct_rev distinct_map) (simp add: inj_on_def)
    moreover have "set ?path = int ` {..<n}"
      using sr bits by (simp only: set_rev set_map)
    moreover have "successively (\<lambda>x y. edge a (nat x) (nat y)) ?path"
      using er by (simp only: successively_rev successively_map nat_int)
    ultimately show ?thesis using True by auto
  next
    case False
    then have "scan s full (v # vs) = scan s full vs" by (simp add: cell_def)
    with Cons.IH [OF vs] False show ?thesis by auto
  qed
qed

lemma find_result:
  assumes r: "fill_tables a = Inr s"
  shows "\<exists>ex path. find_hamiltonian_path a = Some (Inr (ex, path)) \<and>
      (ex = (\<exists>v < length a. cell s (2 ^ length a - 1) v)) \<and>
      (ex \<longrightarrow> valid_path a path) \<and> (\<not> ex \<longrightarrow> path = [])"
proof -
  let ?n = "length a"
  let ?full = "(2::nat) ^ ?n - 1"
  from fill_tables_result [OF r refl] have i: "table_inv ?n a s" by blast
  have f: "?full < 2 ^ ?n" by simp
  have bits: "{v. bit ?full v} = {..<?n}" by (auto simp add: bit_full_mask)
  have "set [0..<?n] \<subseteq> {..<?n}" by auto
  from scan_result [OF i f bits this] obtain ex path where
    s: "scan s ?full [0..<?n] = Some (Inr (ex, path))"
    and e: "ex = (\<exists>v \<in> set [0..<?n]. cell s ?full v)"
    and p: "ex \<longrightarrow> distinct path \<and> set path = int ` {..<?n} \<and>
         successively (\<lambda>x y. edge a (nat x) (nat y)) path"
    and q: "\<not> ex \<longrightarrow> path = []"
    by blast
  have "find_hamiltonian_path a = Some (Inr (ex, path))"
    using r s by (simp add: find_hamiltonian_path_def)
  moreover have "ex = (\<exists>v < ?n. cell s ?full v)" using e by auto
  moreover have "valid_path a path" if ex
  proof -
    from p that have d: "distinct path" and sp: "set path = int ` {..<?n}"
      and su: "successively (\<lambda>x y. edge a (nat x) (nat y)) path" by blast+
    have "length path = card (set path)" using d by (simp add: distinct_card)
    also have "\<dots> = ?n" unfolding sp by (simp add: card_image)
    finally have "length path = ?n" .
    with d sp su show ?thesis by (simp add: valid_path_def successively_conv_nth)
  qed
  ultimately show ?thesis using q by blast
qed

lemma find_error: "fill_tables a = Inl e \<Longrightarrow> find_hamiltonian_path a = Some (Inl e)"
  by (simp add: find_hamiltonian_path_def)

lemma extend_from_total:
  assumes sq: "square a" and a: "adj s = a" and u: "u < length a"
  shows "\<exists>s'. extend_from (length a) m u s = Inr s' \<and> adj s' = a"
proof (cases "dp s ! m ! u")
  case False
  with a show ?thesis by (simp add: extend_from_def)
next
  case True
  have "\<exists>s'. for_loop (extend m u) [0..<length a] s = Inr s' \<and> adj s' = a"
  proof (rule for_loop_upt_total [where P = "\<lambda>j (t::state). adj t = a"])
    show "adj s = a" by (rule a)
  next
    fix j :: nat and t :: state assume j: "j < length a" and t: "adj t = a"
    from extend_no_error [OF sq t u j, of m] obtain t' where t': "extend m u j t = Inr t'"
      by blast
    then have "adj t' = a" using extend_adj t by simp
    with t' show "\<exists>t'. extend m u j t = Inr t' \<and> adj t' = a" by blast
  qed
  with True show ?thesis by (simp add: extend_from_def)
qed

lemma process_mask_total:
  assumes sq: "square a" and a: "adj s = a"
  shows "\<exists>s'. process_mask (length a) m s = Inr s' \<and> adj s' = a"
  unfolding process_mask_def
proof (rule for_loop_upt_total [where P = "\<lambda>j (t::state). adj t = a"])
  show "adj s = a" by (rule a)
next
  fix j :: nat and t :: state assume "j < length a" and "adj t = a"
  with sq show "\<exists>t'. extend_from (length a) m j t = Inr t' \<and> adj t' = a"
    by (simp add: extend_from_total)
qed

lemma fill_tables_total:
  assumes sq: "square a"
  shows "\<exists>s. fill_tables a = Inr s"
proof -
  have "\<exists>t. for_loop base_case [0..<length a] (init_state a) = Inr t \<and> adj t = a"
  proof (rule for_loop_upt_total [where P = "\<lambda>j (t::state). adj t = a"])
    show "adj (init_state a) = a" by (simp add: init_state_def Let_def)
  next
    fix j :: nat and t :: state assume "j < length a" and "adj t = a"
    then show "\<exists>t'. base_case j t = Inr t' \<and> adj t' = a" by (simp add: base_case_def)
  qed
  then obtain t where t: "for_loop base_case [0..<length a] (init_state a) = Inr t"
    and at: "adj t = a" by blast
  have "\<exists>s. for_loop (process_mask (length a)) [0..<2 ^ length a] t = Inr s \<and> adj s = a"
  proof (rule for_loop_upt_total [where P = "\<lambda>j (t::state). adj t = a"])
    show "adj t = a" by (rule at)
  next
    fix j :: nat and t :: state assume "j < 2 ^ length a" and "adj t = a"
    with sq show "\<exists>t'. process_mask (length a) j t = Inr t' \<and> adj t' = a"
      by (simp add: process_mask_total)
  qed
  with t show ?thesis by (auto simp add: fill_tables_def Let_def)
qed

section \<open>The permutation search\<close>

lemma interleave_mem: "ys @ x # zs \<in> set (interleave x (ys @ zs))"
proof (induction ys)
  case Nil
  then show ?case by (cases zs) simp_all
next
  case (Cons y ys)
  then show ?case by simp
qed

lemma interleave_set: "p \<in> set (interleave x ys) \<Longrightarrow> set p = insert x (set ys)"
proof (induction ys arbitrary: p)
  case Nil
  then show ?case by simp
next
  case (Cons y ys)
  from Cons.prems have "p = x # y # ys \<or> (\<exists>q \<in> set (interleave x ys). p = y # q)"
    by auto
  then show ?case
  proof
    assume "p = x # y # ys"
    then show ?thesis by simp
  next
    assume "\<exists>q \<in> set (interleave x ys). p = y # q"
    then obtain q where q: "q \<in> set (interleave x ys)" and p: "p = y # q" by blast
    from Cons.IH [OF q] show ?thesis unfolding p by auto
  qed
qed

lemma interleave_distinct:
  "p \<in> set (interleave x ys) \<Longrightarrow> distinct ys \<Longrightarrow> x \<notin> set ys \<Longrightarrow> distinct p"
proof (induction ys arbitrary: p)
  case Nil
  then show ?case by simp
next
  case (Cons y ys)
  from Cons.prems(1) have "p = x # y # ys \<or> (\<exists>q \<in> set (interleave x ys). p = y # q)"
    by auto
  then show ?case
  proof
    assume "p = x # y # ys"
    with Cons.prems show ?thesis by simp
  next
    assume "\<exists>q \<in> set (interleave x ys). p = y # q"
    then obtain q where q: "q \<in> set (interleave x ys)" and p: "p = y # q" by blast
    from Cons.prems have "distinct ys" "x \<notin> set ys" "y \<notin> set ys" "x \<noteq> y" by auto
    with Cons.IH [OF q] interleave_set [OF q] show ?thesis unfolding p by simp
  qed
qed

lemma permutations_set:
  "distinct xs \<Longrightarrow> set (permutations xs) = {p. distinct p \<and> set p = set xs}"
proof (induction xs)
  case Nil
  then show ?case by auto
next
  case (Cons x xs)
  then have dx: "distinct xs" and nx: "x \<notin> set xs" by simp_all
  note IH = Cons.IH [OF dx]
  show ?case
  proof (intro equalityI subsetI)
    fix p assume "p \<in> set (permutations (x # xs))"
    then obtain q where q: "q \<in> set (permutations xs)" and p: "p \<in> set (interleave x q)"
      by auto
    from q IH have dq: "distinct q" and sq: "set q = set xs" by simp_all
    have "distinct p" using p dq nx sq by (simp add: interleave_distinct)
    moreover have "set p = set (x # xs)" using interleave_set [OF p] sq by simp
    ultimately show "p \<in> {p. distinct p \<and> set p = set (x # xs)}" by simp
  next
    fix p assume "p \<in> {p. distinct p \<and> set p = set (x # xs)}"
    then have dp: "distinct p" and sp: "set p = insert x (set xs)" by simp_all
    from sp have "x \<in> set p" by simp
    then obtain ys zs where p: "p = ys @ x # zs" by (auto dest: split_list)
    from dp have d: "distinct (ys @ zs)" and n: "x \<notin> set (ys @ zs)" unfolding p by auto
    from sp have "insert x (set (ys @ zs)) = insert x (set xs)" unfolding p by simp
    then have "set (ys @ zs) = set xs" unfolding insert_ident [OF n nx] .
    with d IH have "ys @ zs \<in> set (permutations xs)" by simp
    moreover have "p \<in> set (interleave x (ys @ zs))" unfolding p by (rule interleave_mem)
    ultimately show "p \<in> set (permutations (x # xs))" by auto
  qed
qed

lemma exhaustive_search_iff: "exhaustive_search a \<longleftrightarrow> (\<exists>p. hamiltonian a p)"
proof -
  have "set (permutations [0..<length a]) = {p. distinct p \<and> set p = {..<length a}}"
    by (simp add: permutations_set atLeast0LessThan)
  then show ?thesis
    by (simp only: exhaustive_search_def list_ex_iff hamiltonian_def Bex_def mem_Collect_eq)
      blast
qed

section \<open>Completeness of the tables\<close>

lemma hamiltonian_reach:
  assumes "p \<noteq> []" "distinct p" "set p \<subseteq> {..<n}" "successively (edge a) p"
  shows "\<exists>m. reach a n m (last p) \<and> (\<forall>v. bit m v \<longleftrightarrow> v \<in> set p)"
  using assms
proof (induction p rule: rev_induct)
  case Nil
  then show ?case by simp
next
  case (snoc v q)
  then have v: "v < n" by simp
  show ?case
  proof (cases "q = []")
    case True
    have "reach a n (2 ^ v) v" using v by (rule reach.single)
    moreover have "\<forall>w. bit ((2::nat) ^ v) w \<longleftrightarrow> w \<in> set [v]" by (simp add: bit_single)
    ultimately have "reach a n (2 ^ v) (last [v]) \<and> (\<forall>w. bit ((2::nat) ^ v) w \<longleftrightarrow> w \<in> set [v])"
      by simp
    then show ?thesis unfolding True append_Nil by (rule exI)
  next
    case False
    from snoc.prems have dq: "distinct q" and sq: "set q \<subseteq> {..<n}"
      and cq: "successively (edge a) q"
      by (simp_all add: successively_append_iff)
    from snoc.IH [OF False dq sq cq] obtain m where m: "reach a n m (last q)"
      and b: "\<forall>w. bit m w \<longleftrightarrow> w \<in> set q" by blast
    from snoc.prems(4) False have e: "edge a (last q) v"
      by (simp add: successively_append_iff)
    from snoc.prems(2) have nv: "v \<notin> set q" by simp
    have nb: "\<not> bit m v" using b nv by simp
    have "reach a n (m OR 2 ^ v) v" using m v nb e by (rule reach.step)
    then have "reach a n (m OR 2 ^ v) (last (q @ [v]))" by simp
    moreover have "\<forall>w. bit (m OR 2 ^ v) w \<longleftrightarrow> w \<in> set (q @ [v])"
      unfolding bit_or_bit using b by auto
    ultimately show ?thesis by blast
  qed
qed

lemma valid_path_hamiltonian:
  assumes "valid_path a path" shows "hamiltonian a (map nat path)"
proof -
  from assms have d: "distinct path" and s: "set path = int ` {..<length a}"
    and e: "\<forall>i. Suc i < length path \<longrightarrow> edge a (nat (path ! i)) (nat (path ! Suc i))"
    by (simp_all add: valid_path_def)
  have "inj_on nat (int ` {..<length a})" by (rule inj_onI) auto
  then have "inj_on nat (set path)" by (simp only: s)
  then have "distinct (map nat path)" using d by (simp add: distinct_map)
  moreover have "nat ` int ` {..<length a} = {..<length a}"
    by (simp add: image_image)
  then have "set (map nat path) = {..<length a}" by (simp only: set_map s)
  moreover have "successively (\<lambda>x y. edge a (nat x) (nat y)) path"
    using e by (simp only: successively_conv_nth)
  then have "successively (edge a) (map nat path)"
    by (simp only: successively_map)
  ultimately show ?thesis by (simp only: hamiltonian_def simp_thms)
qed

lemma verdict:
  assumes r: "fill_tables a = Inr s" and ne: "a \<noteq> []"
  shows "(\<exists>v < length a. cell s (2 ^ length a - 1) v) \<longleftrightarrow> (\<exists>p. hamiltonian a p)"
proof
  assume "\<exists>v < length a. cell s (2 ^ length a - 1) v"
  with find_result [OF r] obtain path where "valid_path a path" by blast
  then have "hamiltonian a (map nat path)" by (rule valid_path_hamiltonian)
  then show "\<exists>p. hamiltonian a p" by (rule exI)
next
  assume "\<exists>p. hamiltonian a p"
  then obtain p where d: "distinct p" and s: "set p = {..<length a}"
    and e: "successively (edge a) p" unfolding hamiltonian_def by blast
  from ne have "0 \<in> {..<length a}" by simp
  then have pn: "p \<noteq> []" unfolding s [symmetric] by auto
  have sub: "set p \<subseteq> {..<length a}" using s by simp
  from hamiltonian_reach [OF pn d sub e] obtain m where m: "reach a (length a) m (last p)"
    and b: "\<forall>v. bit m v \<longleftrightarrow> v \<in> set p"
    by blast
  have "bit m v = bit ((2::nat) ^ length a - Suc 0) v" for v
    unfolding bit_full_mask using b s by simp
  then have "m = 2 ^ length a - Suc 0" by (rule bit_eqI)
  then have meq: "m = 2 ^ length a - 1" by simp
  from fill_tables_result [OF r refl] m have "cell s m (last p)" by blast
  then have "cell s (2 ^ length a - 1) (last p)" unfolding meq .
  moreover have "last p < length a" using m reach_bounds by blast
  ultimately show "\<exists>v < length a. cell s (2 ^ length a - 1) v" by blast
qed

section \<open>Termination, and the shape of the tables\<close>

lemma find_total: "find_hamiltonian_path a \<noteq> None"
proof (cases "fill_tables a")
  case (Inl e)
  then show ?thesis by (simp add: find_error)
next
  case (Inr s)
  from find_result [OF this] show ?thesis by auto
qed

lemma extend_write_once:
  assumes r: "extend m u v s = Inr s'" and d: "dims n s" and m: "m < 2 ^ n" and v: "v < n"
  shows "dims n s' \<and> write_once n s s'"
proof -
  let ?k = "m OR 2 ^ v"
  have k: "?k < 2 ^ n" using m v by (rule next_mask_less)
  from extend_cases [OF r] show ?thesis
  proof
    assume "s' = s \<and> (bit m v \<or> \<not> edge (adj s) u v \<or> cell s ?k v)"
    with d show ?thesis by (simp add: write_once_refl)
  next
    assume h: "\<not> bit m v \<and> edge (adj s) u v \<and> \<not> cell s ?k v \<and>
      s' = s\<lparr>dp := (dp s)[?k := (dp s ! ?k)[v := True]],
             parent := (parent s)[?k := (parent s ! ?k)[v := int u]]\<rparr>"
    then have s': "s' = s\<lparr>dp := (dp s)[?k := (dp s ! ?k)[v := True]],
             parent := (parent s)[?k := (parent s ! ?k)[v := int u]]\<rparr>" by blast
    from h have nc: "\<not> cell s ?k v" by blast
    have "dims n s'" unfolding s' using d k by (rule dims_write)
    moreover have "write_once n s s'" unfolding s' using d k v nc by (rule write_once_write)
    ultimately show ?thesis by simp
  qed
qed

lemma extend_from_write_once:
  assumes r: "extend_from n m u s = Inr s'" and d: "dims n s" and m: "m < 2 ^ n"
  shows "dims n s' \<and> write_once n s s'"
proof (cases "dp s ! m ! u")
  case False
  with r d show ?thesis by (simp add: extend_from_def write_once_refl)
next
  case True
  with r have l: "for_loop (extend m u) [0..<n] s = Inr s'" by (simp add: extend_from_def)
  let ?P = "\<lambda>(j::nat) t. dims n t \<and> write_once n s t"
  show "?P n s'"
    using l
  proof (rule for_loop_upt_rule [where P = ?P])
    show "?P 0 s" using d by (simp add: write_once_refl)
  next
    fix j t t'
    assume j: "j < n" and p: "?P j t" and e: "extend m u j t = Inr t'"
    from p have dt: "dims n t" and wt: "write_once n s t" by blast+
    from extend_write_once [OF e dt m j] have "dims n t'" "write_once n t t'" by blast+
    with wt show "?P (Suc j) t'" using write_once_trans by blast
  qed
qed

lemma process_mask_write_once:
  assumes r: "process_mask n m s = Inr s'" and d: "dims n s" and m: "m < 2 ^ n"
  shows "dims n s' \<and> write_once n s s'"
proof -
  from r have l: "for_loop (extend_from n m) [0..<n] s = Inr s'" by (simp add: process_mask_def)
  let ?P = "\<lambda>(j::nat) t. dims n t \<and> write_once n s t"
  show "?P n s'"
    using l
  proof (rule for_loop_upt_rule [where P = ?P])
    show "?P 0 s" using d by (simp add: write_once_refl)
  next
    fix j t t'
    assume j: "j < n" and p: "?P j t" and e: "extend_from n m j t = Inr t'"
    from p have dt: "dims n t" and wt: "write_once n s t" by blast+
    from extend_from_write_once [OF e dt m] have "dims n t'" "write_once n t t'" by blast+
    with wt show "?P (Suc j) t'" using write_once_trans by blast
  qed
qed

section \<open>The first predecessor wins\<close>

lemma earlier_mono:
  assumes "earlier n a s m u" "write_once n s t" "m < 2 ^ n"
  shows "earlier n a t m u"
  unfolding earlier_def
proof (intro allI impI)
  fix u' assume "u' < u" "reach a n m u'"
  with assms(1) have "extends n a s m u' n" by (simp add: earlier_def)
  then show "extends n a t m u' n" using assms(2,3) order_refl by (rule extends_mono)
qed

lemma extend_first:
  assumes r: "extend m u v s = Inr s'" and i: "table_inv n a s"
    and m: "m < 2 ^ n" and v: "v < n"
    and f: "first_inv n a s" and e: "earlier n a s m u"
  shows "first_inv n a s'"
proof -
  from i have a: "adj s = a" and d: "dims n s" by (simp_all add: table_inv_def)
  let ?k = "m OR 2 ^ v"
  have k: "?k < 2 ^ n" using m v by (rule next_mask_less)
  from extend_cases [OF r] show ?thesis
  proof
    assume "s' = s \<and> (bit m v \<or> \<not> edge (adj s) u v \<or> cell s ?k v)"
    with f show ?thesis by simp
  next
    assume h: "\<not> bit m v \<and> edge (adj s) u v \<and> \<not> cell s ?k v \<and>
      s' = s\<lparr>dp := (dp s)[?k := (dp s ! ?k)[v := True]],
             parent := (parent s)[?k := (parent s ! ?k)[v := int u]]\<rparr>"
    then have s': "s' = s\<lparr>dp := (dp s)[?k := (dp s ! ?k)[v := True]],
             parent := (parent s)[?k := (parent s ! ?k)[v := int u]]\<rparr>" by blast
    from h have nb: "\<not> bit m v" and nc: "\<not> cell s ?k v" by blast+
    show ?thesis
      unfolding first_inv_def
    proof (intro allI impI)
      fix m' w' u0 u'
      assume m': "m' < 2 ^ n" and w': "w' < n"
        and c: "cell s' m' w' \<and> pred s' m' w' = int u0" and lt: "u' < u0"
      show "\<not> (reach a n (m' XOR 2 ^ w') u' \<and> edge a u' w')"
      proof (cases "m' = ?k \<and> w' = v")
        case True
        then have "pred s' m' w' = int u"
          unfolding s' by (simp add: pred_write [OF d k v k v])
        with c have u0: "u0 = u" by simp
        have x: "m' XOR 2 ^ w' = m" using True nb by (simp add: or_xor_bit)
        show ?thesis
        proof
          assume "reach a n (m' XOR 2 ^ w') u' \<and> edge a u' w'"
          then have ru: "reach a n m u'" and eu: "edge a u' v" using x True by simp_all
          from e lt u0 ru have "extends n a s m u' n" by (simp add: earlier_def)
          with v nb eu have "cell s ?k v" by (simp add: extends_def)
          with nc show False by simp
        qed
      next
        case False
        from c have c1: "cell s' m' w'" and c2: "pred s' m' w' = int u0" by blast+
        from c1 False have old: "cell s m' w'"
          unfolding s' by (auto simp add: cell_write [OF d k v m' w'])
        from c2 False have "pred s m' w' = int u0"
          unfolding s' by (auto simp add: pred_write [OF d k v m' w'])
        with f old m' w' lt show ?thesis unfolding first_inv_def by blast
      qed
    qed
  qed
qed

lemma extend_from_first:
  assumes r: "extend_from n m u s = Inr s'" and i: "table_inv n a s"
    and m: "m < 2 ^ n" and u: "u < n"
    and f: "first_inv n a s" and e: "earlier n a s m u"
  shows "first_inv n a s'"
proof (cases "cell s m u")
  case False
  with r have "s' = s" by (simp add: extend_from_def cell_def)
  with f show ?thesis by simp
next
  case True
  with r have l: "for_loop (extend m u) [0..<n] s = Inr s'"
    by (simp add: extend_from_def cell_def)
  let ?P = "\<lambda>(j::nat) t. table_inv n a t \<and> write_once n s t \<and> first_inv n a t"
  have "?P n s'"
    using l
  proof (rule for_loop_upt_rule [where P = ?P])
    show "?P 0 s" using i f by (simp add: write_once_refl)
  next
    fix j t t'
    assume j: "j < n" and p: "?P j t" and x: "extend m u j t = Inr t'"
    from p have it: "table_inv n a t" and wt: "write_once n s t" and ft: "first_inv n a t"
      by blast+
    have ct: "cell t m u" using wt m u True by (rule write_onceD)
    have et: "earlier n a t m u" using e wt m by (rule earlier_mono)
    from extend_step [OF x it m u j ct]
    have it': "table_inv n a t'" and w': "write_once n t t'" by blast+
    have "first_inv n a t'" using x it m j ft et by (rule extend_first)
    moreover have "write_once n s t'" using wt w' by (rule write_once_trans)
    ultimately show "?P (Suc j) t'" using it' by simp
  qed
  then show ?thesis by simp
qed

lemma process_mask_first:
  assumes r: "process_mask n m s = Inr s'" and i: "table_inv n a s" and m: "m < 2 ^ n"
    and f: "first_inv n a s" and c: "\<forall>u. reach a n m u \<longrightarrow> cell s m u"
  shows "first_inv n a s'"
proof -
  let ?P = "\<lambda>j t. table_inv n a t \<and> write_once n s t \<and> first_inv n a t \<and>
     (\<forall>u < j. cell s m u \<longrightarrow> extends n a t m u n)"
  from r have l: "for_loop (extend_from n m) [0..<n] s = Inr s'"
    by (simp add: process_mask_def)
  have "?P n s'"
    using l
  proof (rule for_loop_upt_rule [where P = ?P])
    show "?P 0 s" using i f by (simp add: write_once_refl)
  next
    fix j t t'
    assume j: "j < n" and p: "?P j t" and x: "extend_from n m j t = Inr t'"
    from p have it: "table_inv n a t" and wt: "write_once n s t" and ft: "first_inv n a t"
      and et: "\<forall>u < j. cell s m u \<longrightarrow> extends n a t m u n"
      by blast+
    have ea: "earlier n a t m j" using et c by (simp add: earlier_def)
    from extend_from_step [OF x it m j]
    have it': "table_inv n a t'" and w': "write_once n t t'"
      and new: "cell t m j \<longrightarrow> extends n a t' m j n"
      by blast+
    have "first_inv n a t'" using x it m j ft ea by (rule extend_from_first)
    moreover have "extends n a t' m u n" if "u < Suc j" "cell s m u" for u
    proof (cases "u = j")
      case True
      have "cell t m j" using wt m j that(2) [unfolded True] by (rule write_onceD)
      with new True show ?thesis by simp
    next
      case False
      with that have "extends n a t m u n" using et by simp
      then show ?thesis using w' m by (simp add: extends_mono)
    qed
    moreover have "write_once n s t'" using wt w' by (rule write_once_trans)
    ultimately show "?P (Suc j) t'" using it' by simp
  qed
  then show ?thesis by simp
qed

lemma base_first:
  assumes i: "table_inv n a s" and o: "only_base n s k"
  shows "first_inv n a s"
  unfolding first_inv_def
proof (intro allI impI)
  fix m w u u'
  assume m: "m < 2 ^ n" and w: "w < n" and c: "cell s m w \<and> pred s m w = int u"
  from o m w c have mw: "m = 2 ^ w" unfolding only_base_def by blast
  from i have so: "sound n s" by (simp add: table_inv_def)
  from so m w c have
    alt: "pred s m w = - 1 \<and> m = 2 ^ w \<or>
      (\<exists>x<n. pred s m w = int x \<and> cell s (m XOR 2 ^ w) x \<and> edge (adj s) x w)"
    unfolding sound_def by blast
  from alt have False
  proof
    assume "pred s m w = - 1 \<and> m = 2 ^ w"
    then have "pred s m w = - 1" by blast
    moreover from c have "pred s m w = int u" by blast
    ultimately show False by simp
  next
    assume "\<exists>x<n. pred s m w = int x \<and> cell s (m XOR 2 ^ w) x \<and> edge (adj s) x w"
    then obtain x where x: "x < n" and cx: "cell s (m XOR 2 ^ w) x" by blast
    have z: "m XOR 2 ^ w = 0" unfolding mw by simp
    have "(0::nat) < 2 ^ n" by simp
    with o x cx [unfolded z] have "(0::nat) = 2 ^ x" unfolding only_base_def by blast
    then show False by simp
  qed
  then show "\<not> (reach a n (m XOR 2 ^ w) u' \<and> edge a u' w)" ..
qed

lemma mask_loop_first:
  assumes r: "for_loop (process_mask n) [0..<2 ^ n] s = Inr s'"
    and i: "table_inv n a s" and b: "base_done n s n" and f: "first_inv n a s"
  shows "first_inv n a s'"
proof -
  let ?P = "\<lambda>k t. table_inv n a t \<and> base_done n t n \<and> masks_done n a t k \<and>
     first_inv n a t"
  have "?P (2 ^ n) s'"
    using r
  proof (rule for_loop_upt_rule [where P = ?P])
    show "?P 0 s" using i b f by (simp add: masks_done_def)
  next
    fix k t t'
    assume k: "k < 2 ^ n" and p: "?P k t" and e: "process_mask n k t = Inr t'"
    from p have it: "table_inv n a t" and bt: "base_done n t n" and mt: "masks_done n a t k"
      and ft: "first_inv n a t"
      by blast+
    have ck: "\<forall>u. reach a n k u \<longrightarrow> cell t k u" using bt mt reach_cell by blast
    from process_mask_step [OF e it k]
    have it': "table_inv n a t'" and w': "write_once n t t'"
      and new: "\<forall>u < n. cell t k u \<longrightarrow> extends n a t' k u n"
      by blast+
    have ft': "first_inv n a t'" using e it k ft ck by (rule process_mask_first)
    have "base_done n t' n"
      unfolding base_done_def
    proof (intro allI impI)
      fix v assume v: "v < n"
      then have "cell t (2 ^ v) v" using bt by (simp add: base_done_def)
      moreover have "(2::nat) ^ v < 2 ^ n" using v by simp
      ultimately show "cell t' (2 ^ v) v" using w' v write_onceD by blast
    qed
    moreover have "masks_done n a t' (Suc k)"
      unfolding masks_done_def
    proof (intro allI impI)
      fix m u assume m: "m < Suc k" and ru: "reach a n m u"
      show "extends n a t' m u n"
      proof (cases "m = k")
        case True
        have "cell t k u" using ru [unfolded True] ck by blast
        moreover have "u < n" using ru reach_bounds by blast
        ultimately show ?thesis using new True by simp
      next
        case False
        with m have mk: "m < k" by simp
        with mt ru have "extends n a t m u n" by (simp add: masks_done_def)
        moreover have "m < 2 ^ n" using mk k by simp
        ultimately show ?thesis using w' by (simp add: extends_mono)
      qed
    qed
    ultimately show "?P (Suc k) t'" using it' ft' by simp
  qed
  then show ?thesis by simp
qed

lemma fill_tables_first:
  assumes r: "fill_tables a = Inr s"
  shows "first_inv (length a) a s"
proof -
  let ?n = "length a"
  from r obtain t where t: "for_loop base_case [0..<?n] (init_state a) = Inr t"
    and s: "for_loop (process_mask ?n) [0..<2 ^ ?n] t = Inr s"
    by (auto simp add: fill_tables_def Let_def split: sum.splits)
  from base_loop_result [OF t refl order_refl]
  have it: "table_inv ?n a t" and ot: "only_base ?n t ?n" and bt: "base_done ?n t ?n"
    by blast+
  have ft: "first_inv ?n a t" using it ot by (rule base_first)
  from s it bt ft show ?thesis by (rule mask_loop_first)
qed

lemma sound_reach:
  assumes i: "table_inv n a s"
  shows "m < 2 ^ n \<Longrightarrow> w < n \<Longrightarrow> cell s m w \<Longrightarrow> reach a n m w"
proof (induction m arbitrary: w rule: less_induct)
  case (less m)
  from i have a: "adj s = a" and so: "sound n s" by (simp_all add: table_inv_def)
  from so less.prems have b: "bit m w" and
    alt: "pred s m w = - 1 \<and> m = 2 ^ w \<or>
      (\<exists>u<n. pred s m w = int u \<and> cell s (m XOR 2 ^ w) u \<and> edge (adj s) u w)"
    unfolding sound_def by blast+
  from alt show ?case
  proof
    assume "pred s m w = - 1 \<and> m = 2 ^ w"
    then have "m = 2 ^ w" by blast
    with less.prems(2) show ?thesis by (simp add: reach.single)
  next
    assume "\<exists>u<n. pred s m w = int u \<and> cell s (m XOR 2 ^ w) u \<and> edge (adj s) u w"
    then obtain u where u: "u < n" and c: "cell s (m XOR 2 ^ w) u" and e: "edge a u w"
      using a by blast
    let ?m' = "m XOR 2 ^ w"
    have lt: "?m' < m" using b by (rule xor_bit_less)
    then have m': "?m' < 2 ^ n" using less.prems(1) by simp
    have ru: "reach a n ?m' u" using lt m' u c by (rule less.IH)
    have nb: "\<not> bit ?m' w" using b by (simp add: bit_xor_bit)
    have "reach a n (?m' OR 2 ^ w) w" using ru less.prems(2) nb e by (rule reach.step)
    moreover have "?m' OR 2 ^ w = m"
      by (rule bit_eqI) (use b in \<open>auto simp add: bit_or_bit bit_xor_bit\<close>)
    ultimately show ?thesis by simp
  qed
qed

section \<open>Every cell is written at most once\<close>

lemma first_write_refl: "first_write n s s"
  by (simp add: first_write_def)

lemma first_write_trans:
  assumes "first_write n s t" "first_write n t r"
  shows "first_write n s r"
  unfolding first_write_def
proof (intro allI impI)
  fix m w :: nat assume m: "m < 2 ^ n" and w: "w < n"
  from assms(1) m w have
    1: "(cell t m w = cell s m w \<and> pred t m w = pred s m w) \<or> (\<not> cell s m w \<and> cell t m w)"
    unfolding first_write_def by blast
  from assms(2) m w have
    2: "(cell r m w = cell t m w \<and> pred r m w = pred t m w) \<or> (\<not> cell t m w \<and> cell r m w)"
    unfolding first_write_def by blast
  from 1 2 show "(cell r m w = cell s m w \<and> pred r m w = pred s m w) \<or>
    (\<not> cell s m w \<and> cell r m w)"
    by metis
qed

lemma first_write_write:
  assumes d: "dims n s" and m: "m < 2 ^ n" and w: "w < n" and nc: "\<not> cell s m w"
  shows "first_write n s (s\<lparr>dp := (dp s)[m := (dp s ! m)[w := True]],
                  parent := (parent s)[m := (parent s ! m)[w := x]]\<rparr>)"
  unfolding first_write_def
proof (intro allI impI)
  fix m' w' :: nat assume m': "m' < 2 ^ n" and w': "w' < n"
  let ?s' = "s\<lparr>dp := (dp s)[m := (dp s ! m)[w := True]],
                  parent := (parent s)[m := (parent s ! m)[w := x]]\<rparr>"
  show "(cell ?s' m' w' = cell s m' w' \<and> pred ?s' m' w' = pred s m' w') \<or>
    (\<not> cell s m' w' \<and> cell ?s' m' w')"
  proof (cases "m' = m \<and> w' = w")
    case True
    then have "cell ?s' m' w'" by (simp add: cell_write [OF d m w m w])
    with True nc show ?thesis by simp
  next
    case False
    then have "cell ?s' m' w' = cell s m' w'" by (auto simp add: cell_write [OF d m w m' w'])
    moreover from False have "pred ?s' m' w' = pred s m' w'"
      by (auto simp add: pred_write [OF d m w m' w'])
    ultimately show ?thesis by blast
  qed
qed

lemma extend_first_write:
  assumes r: "extend m u v s = Inr s'" and d: "dims n s" and m: "m < 2 ^ n" and v: "v < n"
  shows "first_write n s s' \<and>
    (s' = s \<or> \<not> cell s (m OR 2 ^ v) v \<and> cell s' (m OR 2 ^ v) v \<and>
       pred s' (m OR 2 ^ v) v = int u)"
proof -
  let ?k = "m OR 2 ^ v"
  have k: "?k < 2 ^ n" using m v by (rule next_mask_less)
  from extend_cases [OF r] show ?thesis
  proof
    assume "s' = s \<and> (bit m v \<or> \<not> edge (adj s) u v \<or> cell s ?k v)"
    then show ?thesis by (simp add: first_write_refl)
  next
    assume h: "\<not> bit m v \<and> edge (adj s) u v \<and> \<not> cell s ?k v \<and>
      s' = s\<lparr>dp := (dp s)[?k := (dp s ! ?k)[v := True]],
             parent := (parent s)[?k := (parent s ! ?k)[v := int u]]\<rparr>"
    then have s': "s' = s\<lparr>dp := (dp s)[?k := (dp s ! ?k)[v := True]],
             parent := (parent s)[?k := (parent s ! ?k)[v := int u]]\<rparr>" by blast
    from h have nc: "\<not> cell s ?k v" by blast
    have "first_write n s s'" unfolding s' using d k v nc by (rule first_write_write)
    moreover have "cell s' ?k v" unfolding s' by (simp add: cell_write [OF d k v k v])
    moreover have "pred s' ?k v = int u" unfolding s' by (simp add: pred_write [OF d k v k v])
    ultimately show ?thesis using nc by blast
  qed
qed

lemma extend_from_first_write:
  assumes r: "extend_from n m u s = Inr s'" and d: "dims n s" and m: "m < 2 ^ n"
  shows "first_write n s s'"
proof (cases "dp s ! m ! u")
  case False
  with r show ?thesis by (simp add: extend_from_def first_write_refl)
next
  case True
  with r have l: "for_loop (extend m u) [0..<n] s = Inr s'" by (simp add: extend_from_def)
  let ?P = "\<lambda>(j::nat) t. dims n t \<and> first_write n s t"
  have "?P n s'"
    using l
  proof (rule for_loop_upt_rule [where P = ?P])
    show "?P 0 s" using d by (simp add: first_write_refl)
  next
    fix j t t'
    assume j: "j < n" and p: "?P j t" and e: "extend m u j t = Inr t'"
    from p have dt: "dims n t" and wt: "first_write n s t" by blast+
    from extend_write_once [OF e dt m j] have "dims n t'" by blast
    moreover from extend_first_write [OF e dt m j] have "first_write n t t'" by blast
    ultimately show "?P (Suc j) t'" using wt first_write_trans by blast
  qed
  then show ?thesis by simp
qed

lemma process_mask_first_write:
  assumes r: "process_mask n m s = Inr s'" and d: "dims n s" and m: "m < 2 ^ n"
  shows "first_write n s s'"
proof -
  from r have l: "for_loop (extend_from n m) [0..<n] s = Inr s'" by (simp add: process_mask_def)
  let ?P = "\<lambda>(j::nat) t. dims n t \<and> first_write n s t"
  have "?P n s'"
    using l
  proof (rule for_loop_upt_rule [where P = ?P])
    show "?P 0 s" using d by (simp add: first_write_refl)
  next
    fix j t t'
    assume j: "j < n" and p: "?P j t" and e: "extend_from n m j t = Inr t'"
    from p have dt: "dims n t" and wt: "first_write n s t" by blast+
    from extend_from_write_once [OF e dt m] have "dims n t'" by blast
    moreover have "first_write n t t'" using e dt m by (rule extend_from_first_write)
    ultimately show "?P (Suc j) t'" using wt first_write_trans by blast
  qed
  then show ?thesis by simp
qed

lemma mask_loop_first_write:
  assumes r: "for_loop (process_mask n) [0..<k] s = Inr s'" and d: "dims n s"
    and k: "k \<le> 2 ^ n"
  shows "first_write n s s'"
proof -
  let ?P = "\<lambda>(j::nat) t. dims n t \<and> first_write n s t"
  have "?P k s'"
    using r
  proof (rule for_loop_upt_rule [where P = ?P])
    show "?P 0 s" using d by (simp add: first_write_refl)
  next
    fix j t t'
    assume j: "j < k" and p: "?P j t" and e: "process_mask n j t = Inr t'"
    from j k have jn: "j < 2 ^ n" by simp
    from p have dt: "dims n t" and wt: "first_write n s t" by blast+
    from process_mask_write_once [OF e dt jn] have "dims n t'" by blast
    moreover have "first_write n t t'" using e dt jn by (rule process_mask_first_write)
    ultimately show "?P (Suc j) t'" using wt first_write_trans by blast
  qed
  then show ?thesis by simp
qed

lemma base_case_first_write:
  assumes l: "for_loop base_case [0..<j] (init_state a) = Inr t" and j: "j < length a"
    and b: "base_case j t = Inr t'"
  shows "first_write (length a) t t'"
proof -
  let ?n = "length a"
  from j have "j \<le> ?n" by simp
  from base_loop_result [OF l refl this]
  have i: "table_inv ?n a t" and o: "only_base ?n t j" by blast+
  from i have d: "dims ?n t" by (simp add: table_inv_def)
  have k: "(2::nat) ^ j < 2 ^ ?n" using j by simp
  have nc: "\<not> cell t (2 ^ j) j"
  proof
    assume "cell t (2 ^ j) j"
    with o k j have "j < j" unfolding only_base_def by blast
    then show False by simp
  qed
  from b have t': "t' = t\<lparr>dp := (dp t)[2 ^ j := (dp t ! (2 ^ j))[j := True]],
             parent := (parent t)[2 ^ j := (parent t ! (2 ^ j))[j := - 1]]\<rparr>"
    by (simp add: base_case_def)
  show ?thesis unfolding t' using d k j nc by (rule first_write_write)
qed

lemma final_parent:
  assumes r: "fill_tables a = Inr s" and m: "m < 2 ^ length a" and w: "w < length a"
    and c: "cell s m w"
  shows "pred s m w = - 1 \<and> m = 2 ^ w \<or>
    (\<exists>u < length a. pred s m w = int u \<and> cell s (m XOR 2 ^ w) u \<and> edge a u w \<and>
       (\<forall>u' < u. \<not> (cell s (m XOR 2 ^ w) u' \<and> edge a u' w)))"
proof -
  let ?n = "length a"
  from fill_tables_result [OF r refl] have i: "table_inv ?n a s" by blast
  from i have a: "adj s = a" and so: "sound ?n s" by (simp_all add: table_inv_def)
  from fill_tables_first [OF r] have f: "first_inv ?n a s" .
  from so m w c have b: "bit m w" and
    alt: "pred s m w = - 1 \<and> m = 2 ^ w \<or>
      (\<exists>u<?n. pred s m w = int u \<and> cell s (m XOR 2 ^ w) u \<and> edge (adj s) u w)"
    unfolding sound_def by blast+
  from alt show ?thesis
  proof
    assume "pred s m w = - 1 \<and> m = 2 ^ w"
    then show ?thesis by blast
  next
    assume "\<exists>u<?n. pred s m w = int u \<and> cell s (m XOR 2 ^ w) u \<and> edge (adj s) u w"
    then obtain u where u: "u < ?n" and p: "pred s m w = int u"
      and cu: "cell s (m XOR 2 ^ w) u" and e: "edge a u w"
      using a by blast
    have m': "m XOR 2 ^ w < 2 ^ ?n" using m b by (rule xor_bit_bound)
    have "\<not> (cell s (m XOR 2 ^ w) u' \<and> edge a u' w)" if lt: "u' < u" for u'
    proof
      assume h: "cell s (m XOR 2 ^ w) u' \<and> edge a u' w"
      from lt u have "u' < ?n" by simp
      with i m' h have "reach a ?n (m XOR 2 ^ w) u'" using sound_reach by blast
      with f m w c p lt h show False unfolding first_inv_def by blast
    qed
    with u p cu e show ?thesis by blast
  qed
qed

lemma dims_list_all:
  "dims n s \<longleftrightarrow> length (dp s) = 2 ^ n \<and> length (parent s) = 2 ^ n \<and>
     list_all (\<lambda>row. length row = n) (dp s) \<and> list_all (\<lambda>row. length row = n) (parent s)"
  by (auto simp add: dims_def list_all_length)

section \<open>The path the tie-break rules select\<close>

lemma bit_less_exp: "(m::nat) < 2 ^ n \<Longrightarrow> bit m v \<Longrightarrow> v < n"
  by (metis bit_take_bit_iff take_bit_nat_eq_self)

lemma back_path_reach:
  assumes b: "back_path a m l" and m: "m < 2 ^ n"
  shows "reach a n m (hd l)"
proof -
  from b have ne: "l \<noteq> []" and d: "distinct l" and s: "set l = {v. bit m v}"
    and c: "successively (\<lambda>x y. edge a y x) l"
    by (simp_all add: back_path_def)
  have "rev l \<noteq> []" using ne by simp
  moreover have "distinct (rev l)" using d by simp
  moreover have "set (rev l) \<subseteq> {..<n}" using s m bit_less_exp by auto
  moreover have "successively (edge a) (rev l)" using c by (simp only: successively_rev)
  ultimately obtain k where k: "reach a n k (last (rev l))"
    and bk: "\<forall>v. bit k v \<longleftrightarrow> v \<in> set (rev l)"
    using hamiltonian_reach by blast
  have "bit k v = bit m v" for v using bk s by simp
  then have "k = m" by (rule bit_eqI)
  moreover have "last (rev l) = hd l" using ne by (simp add: last_rev)
  ultimately show ?thesis using k by simp
qed

lemma back_path_tail:
  assumes b: "back_path a m (w # u # l)"
  shows "back_path a (m XOR 2 ^ w) (u # l) \<and> edge a u w"
proof -
  from b have d: "distinct (w # u # l)" and s: "set (w # u # l) = {v. bit m v}"
    and c: "successively (\<lambda>x y. edge a y x) (w # u # l)"
    by (simp_all add: back_path_def)
  have "set (u # l) = {v. bit (m XOR 2 ^ w) v}"
  proof (intro equalityI subsetI)
    fix x assume x: "x \<in> set (u # l)"
    with d have "x \<noteq> w" by auto
    moreover from x s have "bit m x" by auto
    ultimately show "x \<in> {v. bit (m XOR 2 ^ w) v}" by (simp add: bit_xor_bit)
  next
    fix x assume "x \<in> {v. bit (m XOR 2 ^ w) v}"
    then have "bit m x \<noteq> (x = w)" by (simp add: bit_xor_bit)
    moreover have "bit m w" using s by auto
    ultimately have "bit m x" "x \<noteq> w" by auto
    with s show "x \<in> set (u # l)" by auto
  qed
  with d c show ?thesis by (simp add: back_path_def)
qed

lemma reconstruct_least:
  assumes i: "table_inv n a s" and f: "first_inv n a s"
  shows "m < 2 ^ n \<Longrightarrow> w < n \<Longrightarrow> cell s m w \<Longrightarrow>
    \<exists>r. reconstruct s m (int w) acc = Some (Inr (acc @ map int (w # r))) \<and>
      back_path a m (w # r) \<and> (\<forall>l. back_path a m (w # l) \<longrightarrow> r \<le> l)"
proof (induction m arbitrary: w acc rule: less_induct)
  case (less m)
  from i have a: "adj s = a" and d: "dims n s" and so: "sound n s"
    by (simp_all add: table_inv_def)
  note unf = reconstruct_unfold [OF d less.prems(1,2), of acc]
  from so less.prems have b: "bit m w" and
    alt: "pred s m w = - 1 \<and> m = 2 ^ w \<or>
      (\<exists>u<n. pred s m w = int u \<and> cell s (m XOR 2 ^ w) u \<and> edge (adj s) u w)"
    unfolding sound_def by blast+
  from alt show ?case
  proof
    assume h: "pred s m w = - 1 \<and> m = 2 ^ w"
    then have p1: "pred s m w = - 1" by blast
    have "reconstruct s m (int w) acc = Some (Inr (acc @ map int (w # [])))"
      using unf p1 by simp
    moreover have "set (w # []) = {v. bit m v}"
      using h by (auto simp add: bit_single)
    then have "back_path a m (w # [])" by (simp add: back_path_def)
    moreover have "\<forall>l. back_path a m (w # l) \<longrightarrow> [] \<le> l" by simp
    ultimately show ?thesis by blast
  next
    assume "\<exists>u<n. pred s m w = int u \<and> cell s (m XOR 2 ^ w) u \<and> edge (adj s) u w"
    then obtain u where u: "u < n" and p: "pred s m w = int u"
      and c: "cell s (m XOR 2 ^ w) u" and e: "edge a u w"
      using a by blast
    let ?m' = "m XOR 2 ^ w"
    have lt: "?m' < m" using b by (rule xor_bit_less)
    then have m': "?m' < 2 ^ n" using less.prems(1) by simp
    from less.IH [OF lt m' u c, of "acc @ [int w]"] obtain r where
      r: "reconstruct s ?m' (int u) (acc @ [int w]) = Some (Inr ((acc @ [int w]) @ map int (u # r)))"
      and br: "back_path a ?m' (u # r)"
      and lr: "\<forall>l. back_path a ?m' (u # l) \<longrightarrow> r \<le> l"
      by blast
    have 1: "reconstruct s m (int w) acc = Some (Inr (acc @ map int (w # u # r)))"
      using unf p r by simp
    from br have dr: "distinct (u # r)" and sr: "set (u # r) = {v. bit ?m' v}"
      and er: "successively (\<lambda>x y. edge a y x) (u # r)"
      by (simp_all add: back_path_def)
    have "w \<notin> set (u # r)"
      unfolding sr using b by (simp add: bit_xor_bit)
    then have "distinct (w # u # r)" using dr by simp
    moreover have "set (w # u # r) = {v. bit m v}"
    proof -
      have "set (w # u # r) = insert w {v. bit ?m' v}" using sr by simp
      also have "\<dots> = {v. bit m v}" using b by (auto simp add: bit_xor_bit)
      finally show ?thesis .
    qed
    moreover have "successively (\<lambda>x y. edge a y x) (w # u # r)"
      using er e by simp
    ultimately have 2: "back_path a m (w # u # r)" by (simp add: back_path_def)
    have 3: "u # r \<le> l" if bl: "back_path a m (w # l)" for l
    proof (cases l)
      case Nil
      with bl have "{v. bit m v} = {w}" by (simp add: back_path_def)
      moreover have "u \<in> {v. bit ?m' v}" using sr by auto
      then have "bit m u" "u \<noteq> w" using b by (auto simp add: bit_xor_bit)
      ultimately show ?thesis by auto
    next
      case (Cons u' l')
      from back_path_tail [OF bl [unfolded Cons]]
      have bt: "back_path a ?m' (u' # l')" and eu: "edge a u' w" by blast+
      from back_path_reach [OF bt m'] have ru: "reach a n ?m' u'" by simp
      have "\<not> u' < u"
      proof
        assume "u' < u"
        with f less.prems p ru eu show False unfolding first_inv_def by blast
      qed
      then have "u < u' \<or> u = u'" by auto
      then show ?thesis
      proof
        assume "u < u'"
        then show ?thesis unfolding Cons by simp
      next
        assume uu: "u = u'"
        with bt lr have "r \<le> l'" by blast
        with uu show ?thesis unfolding Cons by simp
      qed
    qed
    from 1 2 3 show ?thesis by blast
  qed
qed

lemma scan_least:
  assumes i: "table_inv n a s" and f: "first_inv n a s"
    and c: "\<forall>u. reach a n full u \<longrightarrow> cell s full u" and fl: "full < 2 ^ n"
  shows "set vs \<subseteq> {..<n} \<Longrightarrow> sorted vs \<Longrightarrow>
    \<exists>ex path. scan s full vs = Some (Inr (ex, path)) \<and>
      (ex \<longrightarrow> (\<exists>q. path = rev (map int q) \<and> back_path a full q \<and> hd q \<in> set vs \<and>
         (\<forall>l. back_path a full l \<and> hd l \<in> set vs \<longrightarrow> q \<le> l))) \<and>
      (\<not> ex \<longrightarrow> path = [] \<and> (\<forall>l. back_path a full l \<longrightarrow> hd l \<notin> set vs))"
proof (induction vs)
  case Nil
  then show ?case by auto
next
  case (Cons v vs)
  then have v: "v < n" and vs: "set vs \<subseteq> {..<n}" and sv: "sorted vs"
    and le: "\<forall>x \<in> set vs. v \<le> x" by simp_all
  show ?case
  proof (cases "cell s full v")
    case True
    from reconstruct_least [OF i f fl v True, of "[]"] obtain r where
      r: "reconstruct s full (int v) [] = Some (Inr (map int (v # r)))"
      and br: "back_path a full (v # r)"
      and lr: "\<forall>l. back_path a full (v # l) \<longrightarrow> r \<le> l"
      by auto
    have 1: "scan s full (v # vs) = Some (Inr (True, rev (map int (v # r))))"
      using True r by (simp add: cell_def)
    have 2: "v # r \<le> l" if bl: "back_path a full l" and hl: "hd l \<in> set (v # vs)" for l
    proof -
      from bl have "l \<noteq> []" by (simp add: back_path_def)
      then obtain x l' where l: "l = x # l'" by (cases l) auto
      from hl l le have "v < x \<or> v = x" by auto
      then show ?thesis
      proof
        assume "v < x"
        then show ?thesis unfolding l by simp
      next
        assume vx: "v = x"
        with bl l lr have "r \<le> l'" by blast
        with vx show ?thesis unfolding l by simp
      qed
    qed
    have 3: "hd (v # r) \<in> set (v # vs)" by simp
    from 1 br 2 3 show ?thesis by blast
  next
    case False
    then have e: "scan s full (v # vs) = scan s full vs" by (simp add: cell_def)
    have nv: "hd l \<noteq> v" if bl: "back_path a full l" for l
    proof
      assume "hd l = v"
      with back_path_reach [OF bl fl] have "reach a n full v" by simp
      with c False show False by blast
    qed
    from Cons.IH [OF vs sv] obtain ex path where
      s: "scan s full vs = Some (Inr (ex, path))"
      and t: "ex \<longrightarrow> (\<exists>q. path = rev (map int q) \<and> back_path a full q \<and> hd q \<in> set vs \<and>
         (\<forall>l. back_path a full l \<and> hd l \<in> set vs \<longrightarrow> q \<le> l))"
      and n: "\<not> ex \<longrightarrow> path = [] \<and> (\<forall>l. back_path a full l \<longrightarrow> hd l \<notin> set vs)"
      by blast
    have "ex \<longrightarrow> (\<exists>q. path = rev (map int q) \<and> back_path a full q \<and> hd q \<in> set (v # vs) \<and>
         (\<forall>l. back_path a full l \<and> hd l \<in> set (v # vs) \<longrightarrow> q \<le> l))"
      using t nv by auto
    moreover have "\<not> ex \<longrightarrow> path = [] \<and>
      (\<forall>l. back_path a full l \<longrightarrow> hd l \<notin> set (v # vs))"
      using n nv by auto
    ultimately show ?thesis using s e by auto
  qed
qed

lemma candidates_set: "set (candidates a) = {p. p \<noteq> [] \<and> hamiltonian a p}"
proof -
  have "set (permutations [0..<length a]) = {p. distinct p \<and> set p = {..<length a}}"
    by (simp add: permutations_set atLeast0LessThan)
  then show ?thesis by (auto simp add: candidates_def hamiltonian_def)
qed

lemma back_path_full:
  "back_path a (2 ^ length a - Suc 0) q \<longleftrightarrow> q \<noteq> [] \<and> hamiltonian a (rev q)"
proof -
  have "{v. bit ((2::nat) ^ length a - Suc 0) v} = {..<length a}"
    by (auto simp add: bit_full_mask)
  then show ?thesis
    by (auto simp add: back_path_def hamiltonian_def successively_rev)
qed

lemma find_least:
  assumes r: "fill_tables a = Inr s"
  shows "\<exists>ex path. find_hamiltonian_path a = Some (Inr (ex, path)) \<and>
     (ex \<longrightarrow> (\<exists>q. path = rev (map int q) \<and> back_path a (2 ^ length a - Suc 0) q \<and>
        (\<forall>l. back_path a (2 ^ length a - Suc 0) l \<longrightarrow> q \<le> l))) \<and>
     (\<not> ex \<longrightarrow> path = [] \<and> (\<forall>l. \<not> back_path a (2 ^ length a - Suc 0) l))"
proof -
  let ?n = "length a"
  let ?full = "(2::nat) ^ ?n - Suc 0"
  from fill_tables_result [OF r refl] have i: "table_inv ?n a s"
    and c: "\<forall>u. reach a ?n ?full u \<longrightarrow> cell s ?full u" by blast+
  from fill_tables_first [OF r] have f: "first_inv ?n a s" .
  have fl: "?full < 2 ^ ?n" by simp
  have sub: "set [0..<?n] \<subseteq> {..<?n}" by auto
  have so: "sorted [0..<?n]" by simp
  have hd_in: "hd l \<in> set [0..<?n]" if "back_path a ?full l" for l
  proof -
    from that have "l \<noteq> []" "set l = {v. bit ?full v}" by (simp_all add: back_path_def)
    then have "hd l \<in> {v. bit ?full v}" by (metis hd_in_set)
    then show ?thesis by (simp add: bit_full_mask)
  qed
  from scan_least [OF i f c fl sub so] obtain ex path where
    s: "scan s ?full [0..<?n] = Some (Inr (ex, path))"
    and t: "ex \<longrightarrow> (\<exists>q. path = rev (map int q) \<and> back_path a ?full q \<and>
       hd q \<in> set [0..<?n] \<and>
       (\<forall>l. back_path a ?full l \<and> hd l \<in> set [0..<?n] \<longrightarrow> q \<le> l))"
    and n: "\<not> ex \<longrightarrow> path = [] \<and> (\<forall>l. back_path a ?full l \<longrightarrow> hd l \<notin> set [0..<?n])"
    by blast
  have "find_hamiltonian_path a = Some (Inr (ex, path))"
    using r s by (simp add: find_hamiltonian_path_def)
  moreover have "ex \<longrightarrow> (\<exists>q. path = rev (map int q) \<and> back_path a ?full q \<and>
        (\<forall>l. back_path a ?full l \<longrightarrow> q \<le> l))"
    using t hd_in by blast
  moreover have "\<not> ex \<longrightarrow> path = [] \<and> (\<forall>l. \<not> back_path a ?full l)"
    using n hd_in by blast
  ultimately show ?thesis by blast
qed

lemma find_tie_break:
  assumes r: "fill_tables a = Inr s"
  shows "find_hamiltonian_path a = Some (Inr (tie_break_result a))"
proof -
  let ?full = "(2::nat) ^ length a - Suc 0"
  from find_least [OF r] obtain ex path where
    f: "find_hamiltonian_path a = Some (Inr (ex, path))"
    and t: "ex \<longrightarrow> (\<exists>q. path = rev (map int q) \<and> back_path a ?full q \<and>
        (\<forall>l. back_path a ?full l \<longrightarrow> q \<le> l))"
    and n: "\<not> ex \<longrightarrow> path = [] \<and> (\<forall>l. \<not> back_path a ?full l)"
    by blast
  have b: "back_path a ?full (rev p)" if "p \<in> set (candidates a)" for p
    using that by (simp add: candidates_set back_path_full)
  show ?thesis
  proof (cases ex)
    case False
    with n have p: "path = []" and no: "\<forall>l. \<not> back_path a ?full l" by blast+
    have "p \<notin> set (candidates a)" for p using b no by blast
    then have "candidates a = []" by (cases "candidates a") auto
    then have "tie_break_result a = (False, [])" by (simp add: tie_break_result_def)
    with f False p show ?thesis by simp
  next
    case True
    with t obtain q where p: "path = rev (map int q)" and bq: "back_path a ?full q"
      and lq: "\<forall>l. back_path a ?full l \<longrightarrow> q \<le> l" by blast
    from bq have "rev q \<in> set (candidates a)"
      by (simp add: candidates_set back_path_full)
    then obtain c cs where cs: "candidates a = c # cs" by (cases "candidates a") auto
    have "fold min (map rev cs) (rev c) = Min (set (rev c # map rev cs))"
      by (simp only: Min.set_eq_fold)
    also have "set (rev c # map rev cs) = rev ` set (candidates a)" by (simp add: cs)
    also have "Min (rev ` set (candidates a)) = q"
    proof (rule Min_eqI)
      show "finite (rev ` set (candidates a))" by simp
      show "q \<le> y" if "y \<in> rev ` set (candidates a)" for y
        using that b lq by auto
      have "rev (rev q) \<in> rev ` set (candidates a)"
        using \<open>rev q \<in> set (candidates a)\<close> by (rule imageI)
      then show "q \<in> rev ` set (candidates a)" by simp
    qed
    finally have "fold min (map rev cs) (rev c) = q" .
    then have "tie_break_result a = (True, map int (rev q))"
      by (simp add: tie_break_result_def cs)
    with f True p show ?thesis by (simp add: rev_map)
  qed
qed

lemma get_error: "get xs i = Inl e \<Longrightarrow> e = IndexError"
  by (auto simp add: get_def Let_def split: if_splits)

lemma extend_error: "extend m u v s = Inl e \<Longrightarrow> e = IndexError"
  by (auto simp add: extend_def Let_def split: if_splits sum.splits dest: get_error)

lemma for_loop_error:
  assumes "for_loop f xs s = Inl e" and "\<And>x t e'. f x t = Inl e' \<Longrightarrow> e' = IndexError"
  shows "e = IndexError"
  using assms
proof (induction xs arbitrary: s)
  case Nil
  then show ?case by simp
next
  case (Cons x xs)
  show ?case
  proof (cases "f x s")
    case (Inl e')
    with Cons.prems show ?thesis by auto
  next
    case (Inr t)
    with Cons.prems(1) have "for_loop f xs t = Inl e" by simp
    then show ?thesis using Cons.prems(2) by (rule Cons.IH)
  qed
qed

lemma fill_tables_error:
  assumes "fill_tables a = Inl e" shows "e = IndexError"
proof -
  have 1: "e' = IndexError" if "extend_from n m u t = Inl e'" for n m u t e'
    using that extend_error
    by (auto simp add: extend_from_def split: if_splits elim!: for_loop_error)
  have 2: "e' = IndexError" if "process_mask n m t = Inl e'" for n m t e'
    using that 1 by (auto simp add: process_mask_def elim!: for_loop_error)
  have 3: "e' = IndexError" if "base_case v t = Inl e'" for v t e'
    using that by (simp add: base_case_def)
  from assms show ?thesis
    by (auto simp add: fill_tables_def Let_def split: sum.splits
        elim!: for_loop_error dest: 2 3)
qed

section \<open>A call started in an arbitrary state\<close>

lemma enter_init:
  "(s0::state)\<lparr>dp := x, parent := y\<rparr> = \<lparr>adj = adj s0, dp = x, parent = y\<rparr>"
  by (cases s0) simp

lemma call_fill:
  "call s0 = (case fill_tables (adj s0) of
       Inl e \<Rightarrow> Some (Inl e)
     | Inr s \<Rightarrow> (case scan s (push_bit (length (adj s0)) 1 - 1) [0..<length (adj s0)] of
         None \<Rightarrow> None | Some (Inl e) \<Rightarrow> Some (Inl e) | Some (Inr r) \<Rightarrow> Some (Inr (r, s))))"
  by (simp add: call_def fill_tables_def init_state_def Let_def enter_init split: sum.splits)

lemma call_result: "result_of (call s0) = find_hamiltonian_path (adj s0)"
  by (auto simp add: call_fill result_of_def find_hamiltonian_path_def Let_def
      split: sum.splits option.splits)

lemma call_adj:
  assumes "call s0 = Some (Inr (r, s))" shows "adj s = adj s0"
proof -
  from assms have "fill_tables (adj s0) = Inr s"
    by (auto simp add: call_fill split: sum.splits option.splits)
  from fill_tables_result [OF this refl] show ?thesis by (simp add: table_inv_def)
qed

section \<open>The scenarios of the specification\<close>

text \<open>The model run on the four scenarios of the specification (a triangle, no edges, two
  disconnected pairs, a chain), and on a ragged matrix, where the read of a missing entry
  raises.\<close>

lemma scenario_triangle:
  "find_hamiltonian_path [[0, 1, 0], [0, 0, 1], [1, 0, 0]] = Some (Inr (True, [1, 2, 0]))"
  by code_simp

lemma scenario_no_edges:
  "find_hamiltonian_path [[0, 0, 0], [0, 0, 0], [0, 0, 0]] = Some (Inr (False, []))"
  by code_simp

lemma scenario_disconnected:
  "find_hamiltonian_path [[0, 1, 0, 0], [0, 0, 0, 0], [0, 0, 0, 1], [0, 0, 0, 0]] =
     Some (Inr (False, []))"
  by code_simp

lemma scenario_chain:
  "find_hamiltonian_path [[0, 1, 0, 0], [0, 0, 1, 0], [0, 0, 0, 1], [0, 0, 0, 0]] =
     Some (Inr (True, [0, 1, 2, 3]))"
  by code_simp

lemma ragged_matrix_raises:
  "find_hamiltonian_path [[0, 1], []] = Some (Inl IndexError)"
  by code_simp

section \<open>The claims\<close>

text \<open>Claim C1. Whenever \<^verbatim>\<open>find_hamiltonian_path\<close> returns existence = True, the returned
  path has exactly n elements, every vertex number from 0 to n - 1 occurs in it exactly once,
  and \<^verbatim>\<open>adj[path[i]][path[i+1]]\<close> is nonzero for every consecutive pair; when it returns
  existence = False the path is empty, so no partial path is ever returned. This holds for
  every matrix on which the function returns, the square ones among them.\<close>

theorem path_validity:
  assumes "find_hamiltonian_path a = Some (Inr (ex, path))"
  shows "(ex \<longrightarrow> length path = length a \<and> distinct path \<and> set path = int ` {..<length a} \<and>
           (\<forall>i. Suc i < length path \<longrightarrow> edge a (nat (path ! i)) (nat (path ! Suc i)))) \<and>
         (\<not> ex \<longrightarrow> path = [])"
proof (cases "fill_tables a")
  case (Inl e)
  with assms show ?thesis by (simp add: find_error)
next
  case (Inr s)
  from find_result [OF this] assms show ?thesis by (auto simp add: valid_path_def)
qed

theorem path_validity_witness:
  "find_hamiltonian_path [[0, 1], [0, 0]] = Some (Inr (True, [0, 1])) \<and>
   length [0, 1 :: int] = length [[0, 1], [0, 0 :: int]] \<and> distinct [0, 1 :: int] \<and>
   set [0, 1 :: int] = int ` {..<length [[0, 1], [0, 0 :: int]]} \<and>
   edge [[0, 1], [0, 0]] (nat ([0, 1] ! 0)) (nat ([0, 1] ! Suc 0))"
proof -
  have h: "find_hamiltonian_path [[0, 1], [0, 0]] = Some (Inr (True, [0, 1]))"
    by code_simp
  from path_validity [OF h] h show ?thesis by simp
qed

text \<open>Claim C2, amended to graphs with at least one vertex. For a square matrix with
  n > 0 the function returns, its verdict is the verdict of the exhaustive permutation
  search, and with the verdict False the returned path is empty and the graph has no
  Hamiltonian path.\<close>

theorem verdict_matches_search:
  assumes sq: "square a" and ne: "a \<noteq> []"
  shows "\<exists>path. find_hamiltonian_path a = Some (Inr (exhaustive_search a, path)) \<and>
    (\<not> exhaustive_search a \<longrightarrow> path = [] \<and> (\<forall>p. \<not> hamiltonian a p))"
proof -
  from fill_tables_total [OF sq] obtain s where s: "fill_tables a = Inr s" by blast
  from find_result [OF s] obtain ex path where
    f: "find_hamiltonian_path a = Some (Inr (ex, path))"
    and e: "ex = (\<exists>v < length a. cell s (2 ^ length a - 1) v)"
    and q: "\<not> ex \<longrightarrow> path = []"
    by blast
  from e verdict [OF s ne] have "ex = exhaustive_search a"
    by (simp only: exhaustive_search_iff)
  with f q show ?thesis by (auto simp add: exhaustive_search_iff)
qed

theorem verdict_matches_search_witness:
  "square [[0, 0], [0, 0]] \<and> [[0, 0], [0, 0 :: int]] \<noteq> [] \<and>
   \<not> exhaustive_search [[0, 0], [0, 0]] \<and>
   find_hamiltonian_path [[0, 0], [0, 0]] = Some (Inr (False, [])) \<and>
   (\<forall>p. \<not> hamiltonian [[0, 0], [0, 0]] p)"
proof -
  have sq: "square [[0, 0], [0, 0]]" by (simp add: square_def)
  have ne: "[[0, 0], [0, 0 :: int]] \<noteq> []" by simp
  have nx: "\<not> exhaustive_search [[0, 0], [0, 0]]" by code_simp
  from verdict_matches_search [OF sq ne] nx sq show ?thesis by auto
qed

text \<open>Claim C2 as stated fails on the empty graph: the permutation search accepts the
  empty ordering, and the function reports False.\<close>

theorem verdict_empty_graph_counterexample:
  "find_hamiltonian_path [] = Some (Inr (False, [])) \<and> exhaustive_search []"
  by code_simp

text \<open>Claim C3, amended. For the empty input (n = 0) the function returns
  existence = False with an empty path: the scan over \<^verbatim>\<open>range(0)\<close> finds no end vertex.\<close>

theorem empty_input:
  "find_hamiltonian_path [] = Some (Inr (False, []))"
  by code_simp

text \<open>Claim C3 as stated (existence = True with an empty path) fails.\<close>

theorem empty_input_counterexample:
  "find_hamiltonian_path [] \<noteq> Some (Inr (True, []))"
  by code_simp

text \<open>Claim C4. For every 1 x 1 matrix the function returns existence = True and the
  path [0], whatever the entry \<^verbatim>\<open>adj[0][0]\<close> is.\<close>

theorem single_vertex:
  "find_hamiltonian_path [[x]] = Some (Inr (True, [0]))"
  by code_simp

text \<open>Claim C5. The output is determined by the input, and the theorem says which output
  it is. On every input the call raises \<^verbatim>\<open>IndexError\<close> or returns \<open>tie_break_result\<close>:
  the verdict of the search over the orderings of the vertices and, with the verdict True,
  the Hamiltonian path whose reversal is lexicographically least. That is the path the two
  tie-break rules select: the scan takes the lowest end vertex, and every cell records the
  first, hence lowest, predecessor. On a square matrix no exception is raised. Two calls
  with equal input therefore return the same verdict and the same path.\<close>

theorem deterministic:
  "(a = b \<longrightarrow> find_hamiltonian_path a = find_hamiltonian_path b) \<and>
   (find_hamiltonian_path a = Some (Inl IndexError) \<or>
    find_hamiltonian_path a = Some (Inr (tie_break_result a))) \<and>
   (square a \<longrightarrow> find_hamiltonian_path a = Some (Inr (tie_break_result a)))"
proof (intro conjI impI)
  assume "a = b"
  then show "find_hamiltonian_path a = find_hamiltonian_path b" by simp
next
  show "find_hamiltonian_path a = Some (Inl IndexError) \<or>
    find_hamiltonian_path a = Some (Inr (tie_break_result a))"
  proof (cases "fill_tables a")
    case (Inl e)
    then have "e = IndexError" by (rule fill_tables_error)
    with Inl show ?thesis by (simp add: find_error)
  next
    case (Inr s)
    then show ?thesis by (simp add: find_tie_break)
  qed
next
  assume "square a"
  from fill_tables_total [OF this] obtain s where "fill_tables a = Inr s" by blast
  then show "find_hamiltonian_path a = Some (Inr (tie_break_result a))"
    by (rule find_tie_break)
qed

theorem deterministic_witness:
  "square two_predecessors \<and>
   candidates two_predecessors = [[0, 1, 2], [1, 0, 2]] \<and>
   tie_break_result two_predecessors = (True, [1, 0, 2]) \<and>
   find_hamiltonian_path two_predecessors = Some (Inr (True, [1, 0, 2]))"
proof -
  have sq: "square two_predecessors" by (simp add: square_def two_predecessors_def)
  have c: "candidates two_predecessors = [[0, 1, 2], [1, 0, 2]]" by code_simp
  have t: "tie_break_result two_predecessors = (True, [1, 0, 2])" by code_simp
  from deterministic [of two_predecessors two_predecessors] sq
  have "find_hamiltonian_path two_predecessors = Some (Inr (tie_break_result two_predecessors))"
    by blast
  with sq c t show ?thesis by simp
qed

text \<open>Claim C6. The tables are populated write-once. One step of the innermost loop
  leaves the state as it is or sets one unset cell, flag and predecessor together. From any
  state of the right shape that step, the loop over v for one (mask, u), the loops for one
  mask and any initial segment of the loop over the masks leave every cell untouched or
  take it from unset to set, and so does every step of the base-case loop run from the
  fresh tables: a set cell is never reset and its predecessor never overwritten. In the
  final tables the predecessor recorded for a cell (c, w) that is not a base case is the
  lowest u with \<^verbatim>\<open>dp[c without w][u]\<close> set and an edge from u to w, which is the first one
  the loops meet: the only mask that leads to c by adding w is c without w, and u runs
  upward.\<close>

theorem tables_write_once:
  "(dims n s \<and> m < 2 ^ n \<and> v < n \<and> extend m u v s = Inr s' \<longrightarrow>
      first_write n s s' \<and>
      (s' = s \<or> \<not> cell s (m OR 2 ^ v) v \<and> cell s' (m OR 2 ^ v) v \<and>
         pred s' (m OR 2 ^ v) v = int u)) \<and>
   (dims n s \<and> m < 2 ^ n \<and> extend_from n m u s = Inr s' \<longrightarrow> first_write n s s') \<and>
   (dims n s \<and> m < 2 ^ n \<and> process_mask n m s = Inr s' \<longrightarrow> first_write n s s') \<and>
   (dims n s \<and> k \<le> 2 ^ n \<and> for_loop (process_mask n) [0..<k] s = Inr s' \<longrightarrow>
      first_write n s s') \<and>
   (j < length a \<and> for_loop base_case [0..<j] (init_state a) = Inr t \<and>
      base_case j t = Inr t' \<longrightarrow> first_write (length a) t t') \<and>
   (fill_tables a = Inr r \<and> c < 2 ^ length a \<and> w < length a \<and> cell r c w \<longrightarrow>
      pred r c w = - 1 \<and> c = 2 ^ w \<or>
      (\<exists>p < length a. pred r c w = int p \<and> cell r (c XOR 2 ^ w) p \<and> edge a p w \<and>
         (\<forall>p' < p. \<not> (cell r (c XOR 2 ^ w) p' \<and> edge a p' w))))"
proof (intro conjI impI)
  assume h: "dims n s \<and> m < 2 ^ n \<and> v < n \<and> extend m u v s = Inr s'"
  then have "extend m u v s = Inr s'" "dims n s" "m < 2 ^ n" "v < n" by blast+
  from extend_first_write [OF this]
  show "first_write n s s'"
    and "s' = s \<or> \<not> cell s (m OR 2 ^ v) v \<and> cell s' (m OR 2 ^ v) v \<and>
         pred s' (m OR 2 ^ v) v = int u"
    by blast+
next
  assume "dims n s \<and> m < 2 ^ n \<and> extend_from n m u s = Inr s'"
  then show "first_write n s s'" using extend_from_first_write by blast
next
  assume "dims n s \<and> m < 2 ^ n \<and> process_mask n m s = Inr s'"
  then show "first_write n s s'" using process_mask_first_write by blast
next
  assume "dims n s \<and> k \<le> 2 ^ n \<and> for_loop (process_mask n) [0..<k] s = Inr s'"
  then show "first_write n s s'" using mask_loop_first_write by blast
next
  assume "j < length a \<and> for_loop base_case [0..<j] (init_state a) = Inr t \<and>
      base_case j t = Inr t'"
  then show "first_write (length a) t t'" using base_case_first_write by blast
next
  assume h: "fill_tables a = Inr r \<and> c < 2 ^ length a \<and> w < length a \<and> cell r c w"
  then have "fill_tables a = Inr r" "c < 2 ^ length a" "w < length a" "cell r c w" by blast+
  then show "pred r c w = - 1 \<and> c = 2 ^ w \<or>
      (\<exists>p < length a. pred r c w = int p \<and> cell r (c XOR 2 ^ w) p \<and> edge a p w \<and>
         (\<forall>p' < p. \<not> (cell r (c XOR 2 ^ w) p' \<and> edge a p' w)))"
    by (rule final_parent)
qed

theorem tables_write_once_witness:
  "dims 3 before_mask_3 \<and> cell before_mask_3 3 0 \<and> pred before_mask_3 3 0 = 1 \<and>
   \<not> cell before_mask_3 7 2 \<and>
   extend 3 0 2 before_mask_3 = Inr after_first_write \<and>
   first_write 3 before_mask_3 after_first_write \<and>
   cell after_first_write 3 0 \<and> pred after_first_write 3 0 = 1 \<and>
   cell after_first_write 7 2 \<and> pred after_first_write 7 2 = 0 \<and>
   cell after_first_write 3 1 \<and> edge two_predecessors 1 2 \<and>
   extend 3 1 2 after_first_write = Inr after_first_write \<and>
   fill_tables two_predecessors = Inr after_first_write"
proof -
  have d: "dims 3 before_mask_3"
    by (simp add: dims_list_all before_mask_3_def)
  have e: "extend 3 0 2 before_mask_3 = Inr after_first_write" by code_simp
  have b: "(3::nat) < 2 ^ 3" "(2::nat) < 3" by simp_all
  from tables_write_once [of 3 before_mask_3 3 2 0 after_first_write] d e b
  have f: "first_write 3 before_mask_3 after_first_write" by blast
  have c: "cell before_mask_3 3 0" "pred before_mask_3 3 0 = 1" "\<not> cell before_mask_3 7 2"
    "cell after_first_write 3 0" "pred after_first_write 3 0 = 1"
    "cell after_first_write 7 2" "pred after_first_write 7 2 = 0"
    "cell after_first_write 3 1" "edge two_predecessors 1 2"
    by code_simp+
  have r: "extend 3 1 2 after_first_write = Inr after_first_write" by code_simp
  have t: "fill_tables two_predecessors = Inr after_first_write" by code_simp
  from d e f c r t show ?thesis by blast
qed

text \<open>Claim C7. On every square matrix the function terminates and returns a verdict and
  a path, without an exception: the loop that follows the parent pointers reaches the
  sentinel.\<close>

theorem total_on_square:
  assumes "square a"
  shows "\<exists>ex path. find_hamiltonian_path a = Some (Inr (ex, path))"
proof -
  from fill_tables_total [OF assms] obtain s where "fill_tables a = Inr s" by blast
  from find_result [OF this] show ?thesis by blast
qed

theorem total_on_square_witness:
  "square [[0, 1], [0, 0]] \<and>
   (\<exists>ex path. find_hamiltonian_path [[0, 1], [0, 0]] = Some (Inr (ex, path)))"
proof -
  have sq: "square [[0, 1], [0, 0]]" by (simp add: square_def)
  from total_on_square [OF sq] sq show ?thesis by simp
qed

text \<open>Claim C8. \<^verbatim>\<open>run\<close> accepts the two optional arguments and ignores them: the result
  is the one of the call that leaves them at their default \<^verbatim>\<open>None\<close>.\<close>

theorem run_ignores_optional:
  "run input_data solver_params extra_arguments = run input_data None None"
  by (simp add: run_def)

text \<open>Claim C9. A call has no side effects. Started in any state, also one that holds
  the tables an earlier call left behind, a call that returns ends with the adjacency
  matrix it started with, and its result is \<open>find_hamiltonian_path\<close> of that matrix
  alone; so is the result of the next call, started in the state the first one ended in,
  on any matrix \<open>b\<close>. The two statements that write to a table leave \<^verbatim>\<open>adj\<close> as it is;
  an exception is raised only by the read of \<^verbatim>\<open>adj[u][v]\<close>, which writes nothing.\<close>

theorem no_side_effects:
  "(call s0 = Some (Inr (r, s)) \<longrightarrow> adj s = adj s0) \<and>
   result_of (call s0) = find_hamiltonian_path (adj s0) \<and>
   (call s0 = Some (Inr (r, s)) \<longrightarrow>
      result_of (call (s\<lparr>adj := b\<rparr>)) = find_hamiltonian_path b) \<and>
   (base_case v t = Inr t' \<longrightarrow> adj t' = adj t) \<and>
   (extend m u w t = Inr t' \<longrightarrow> adj t' = adj t)"
proof (intro conjI impI)
  assume "call s0 = Some (Inr (r, s))"
  then show "adj s = adj s0" by (rule call_adj)
next
  show "result_of (call s0) = find_hamiltonian_path (adj s0)" by (rule call_result)
next
  show "result_of (call (s\<lparr>adj := b\<rparr>)) = find_hamiltonian_path b"
    using call_result [of "s\<lparr>adj := b\<rparr>"] by simp
next
  assume "base_case v t = Inr t'"
  then show "adj t' = adj t" by (auto simp add: base_case_def)
next
  assume "extend m u w t = Inr t'"
  then show "adj t' = adj t" by (rule extend_adj)
qed

theorem no_side_effects_witness:
  "call \<lparr>adj = [[0, 1], [1, 0]], dp = [], parent = []\<rparr> =
     Some (Inr ((True, [1, 0]), cycle_call_end)) \<and>
   adj cycle_call_end = [[0, 1], [1, 0]] \<and>
   cell (cycle_call_end\<lparr>adj := [[0, 0], [0, 0]]\<rparr>) 3 0 \<and>
   result_of (call (cycle_call_end\<lparr>adj := [[0, 0], [0, 0]]\<rparr>)) =
     find_hamiltonian_path [[0, 0], [0, 0]] \<and>
   find_hamiltonian_path [[0, 0], [0, 0]] = Some (Inr (False, []))"
proof -
  have c: "call \<lparr>adj = [[0, 1], [1, 0]], dp = [], parent = []\<rparr> =
     Some (Inr ((True, [1, 0]), cycle_call_end))"
    by code_simp
  have d: "cell (cycle_call_end\<lparr>adj := [[0, 0], [0, 0]]\<rparr>) 3 0" by code_simp
  have f: "find_hamiltonian_path [[0, 0], [0, 0]] = Some (Inr (False, []))" by code_simp
  from no_side_effects [of "\<lparr>adj = [[0, 1], [1, 0]], dp = [], parent = []\<rparr>"
      "(True, [1, 0])" cycle_call_end "[[0, 0], [0, 0]]"] c
  have "adj cycle_call_end = adj \<lparr>adj = [[0, 1], [1, 0]], dp = [], parent = []\<rparr>"
    and "result_of (call (cycle_call_end\<lparr>adj := [[0, 0], [0, 0]]\<rparr>)) =
     find_hamiltonian_path [[0, 0], [0, 0]]"
    by blast+
  with c d f show ?thesis by simp
qed

text \<open>Claim C10. Without the key \<^verbatim>\<open>adjacency_matrix\<close> in \<open>input_data\<close>, \<^verbatim>\<open>run\<close>
  raises \<^verbatim>\<open>KeyError\<close> and returns no response.\<close>

theorem run_missing_key:
  assumes "input_data ''adjacency_matrix'' = None"
  shows "run input_data solver_params extra_arguments = Some (Inl KeyError)"
  using assms by (simp add: run_def)

theorem run_missing_key_witness:
  "Map.empty ''adjacency_matrix'' = (None :: int list list option) \<and>
   run Map.empty None None = Some (Inl KeyError)"
  using run_missing_key [of Map.empty None None] by simp

end
